theory Spec2Isabelle
  imports Main "HOL-Library.Word"
begin

unbundle bit_operations_syntax

section \<open>The allocator of \<^verbatim>\<open>src/allocator.c\<close>\<close>

text \<open>
  The allocator keeps a singly linked list of \<^verbatim>\<open>Block\<close> headers inside the memory it
  obtains from \<^verbatim>\<open>sbrk\<close>. The model is for an LP64 target: \<^verbatim>\<open>size_t\<close>, pointers
  and \<^verbatim>\<open>intptr_t\<close> are 64-bit words, \<^verbatim>\<open>int\<close> is a 32-bit word, \<^verbatim>\<open>NULL\<close> is the address 0
  and \<^verbatim>\<open>(void *)-1\<close> is the word of all ones. All arithmetic on them wraps around, as
  in C.

  The fields \<^verbatim>\<open>size\<close>, \<^verbatim>\<open>free\<close> and \<^verbatim>\<open>next\<close> of a \<^verbatim>\<open>Block\<close> are \<open>size_blk\<close>, \<open>free_blk\<close>
  and \<open>next_blk\<close> here (\<open>size\<close> is a constant of HOL and \<open>next\<close> a keyword of Isar).

  Memory is a store from addresses to headers: \<open>mem s a\<close> is what the three fields of a
  \<^verbatim>\<open>Block\<close> read at address \<open>a\<close>. The store is total, so a header can be read and written
  at any address, as the C code does; what it holds at an address where no header was
  written is whatever the initial store says. Headers at different addresses are
  independent in the store. That agrees with the machine as long as the headers in use are
  at least \<^verbatim>\<open>sizeof(Block)\<close> bytes apart, which the layout predicate \<open>laid\<close> below
  states for the blocks of the list.

  The state has the two globals of the source, \<open>head\<close> and \<open>heap_start\<close>, the store, and
  what \<^verbatim>\<open>sbrk\<close> works on: the program break \<open>brk\<close> and the range \<open>brk_lo\<close> to \<open>brk_hi\<close>
  in which the environment lets it move.

  A loop of the source is a recursive function with an optional result: \<open>None\<close> is a
  loop that does not end, which a list of blocks that runs into itself can cause.
\<close>

type_synonym addr = "64 word"
type_synonym size_t = "64 word"

record Block =
  size_blk :: size_t
  free_blk :: "32 word"
  next_blk :: addr

record heap =
  mem :: "addr \<Rightarrow> Block"
  head :: addr
  heap_start :: addr
  brk :: addr
  brk_lo :: addr
  brk_hi :: addr

definition ALIGNMENT :: size_t where
  "ALIGNMENT = 16"

text \<open>\<^verbatim>\<open>sizeof(Block)\<close> under \<^verbatim>\<open>__attribute__((aligned(16)))\<close>: 8 + 4 (+ 4 padding) + 8 bytes,
  rounded up to the alignment of the type.\<close>

definition sizeof_Block :: size_t where
  "sizeof_Block = 32"

definition ALIGNED_METADATA_SIZE :: size_t where
  "ALIGNED_METADATA_SIZE = (sizeof_Block + (ALIGNMENT - 1)) AND NOT (ALIGNMENT - 1)"

definition MIN_BLOCK_SIZE :: size_t where
  "MIN_BLOCK_SIZE = ALIGNED_METADATA_SIZE + ALIGNMENT"

definition align :: "size_t \<Rightarrow> size_t" where
  "align sz = (sz + ALIGNMENT - 1) AND NOT (ALIGNMENT - 1)"

definition is_aligned :: "addr \<Rightarrow> bool" where
  "is_aligned ptr = (ptr mod ALIGNMENT = 0)"

text \<open>
  Modelled from the spec: \<^verbatim>\<open>sbrk\<close> is the C library's and not part of the repository. The
  spec calls it the heap-growth primitive: growing by a positive number of bytes returns
  the start of the new region or fails, growing by 0 returns the current end of the heap.
  As in the library, the increment is signed (\<^verbatim>\<open>intptr_t\<close>), the program break moves by
  it and the previous break is returned; when the new break would leave the range
  \<open>brk_lo\<close> to \<open>brk_hi\<close> that the environment allows, the break stays and
  \<^verbatim>\<open>(void *)-1\<close> is returned.
\<close>

definition sbrk :: "64 word \<Rightarrow> heap \<Rightarrow> addr \<times> heap" where
  "sbrk increment s =
     (if increment = 0 then (brk s, s)
      else
        let new = uint (brk s) + sint increment in
        if new < uint (brk_lo s) \<or> uint (brk_hi s) < new then (- 1, s)
        else (brk s, s\<lparr>brk := word_of_int new\<rparr>))"

definition split :: "addr \<Rightarrow> size_t \<Rightarrow> heap \<Rightarrow> addr \<times> heap" where
  "split block sz s =
     (if size_blk (mem s block) < sz + MIN_BLOCK_SIZE then
        (block, s\<lparr>mem := (mem s)(block := (mem s block)\<lparr>free_blk := 0\<rparr>)\<rparr>)
      else
        let leftover_size = size_blk (mem s block) - sz - ALIGNED_METADATA_SIZE;
            new_block = block + ALIGNED_METADATA_SIZE + sz;
            m1 = (mem s)(new_block := (mem s new_block)\<lparr>size_blk := leftover_size\<rparr>);
            m2 = m1(new_block := (m1 new_block)\<lparr>free_blk := 1\<rparr>);
            m3 = m2(new_block := (m2 new_block)\<lparr>next_blk := next_blk (m2 block)\<rparr>);
            m4 = m3(block := (m3 block)\<lparr>size_blk := sz\<rparr>);
            m5 = m4(block := (m4 block)\<lparr>free_blk := 0\<rparr>);
            m6 = m5(block := (m5 block)\<lparr>next_blk := new_block\<rparr>)
        in (block, s\<lparr>mem := m6\<rparr>))"

text \<open>The first loop of \<^verbatim>\<open>coalesce\<close>: absorb the successors of \<open>block\<close> while they are free.\<close>

partial_function (option) coalesce_forward :: "addr \<Rightarrow> (addr \<Rightarrow> Block) \<Rightarrow> (addr \<Rightarrow> Block) option" where
  "coalesce_forward block m =
     (if next_blk (m block) \<noteq> 0 \<and> free_blk (m (next_blk (m block))) \<noteq> 0 then
        let m1 = m(block := (m block)\<lparr>size_blk :=
                     size_blk (m block) + (ALIGNED_METADATA_SIZE + size_blk (m (next_blk (m block))))\<rparr>);
            m2 = m1(block := (m1 block)\<lparr>next_blk := next_blk (m1 (next_blk (m1 block)))\<rparr>)
        in coalesce_forward block m2
      else Some m)"

text \<open>The second loop of \<^verbatim>\<open>coalesce\<close>: walk from \<open>cur\<close> to \<open>block\<close>, remembering the
  block before; the result is \<open>prev\<close>.\<close>

partial_function (option) find_prev :: "(addr \<Rightarrow> Block) \<Rightarrow> addr \<Rightarrow> addr \<Rightarrow> addr \<Rightarrow> addr option" where
  "find_prev m block cur prev =
     (if cur \<noteq> 0 \<and> cur \<noteq> block then find_prev m block (next_blk (m cur)) cur
      else Some prev)"

definition coalesce :: "addr \<Rightarrow> heap \<Rightarrow> (addr \<times> heap) option" where
  "coalesce block s =
     (case coalesce_forward block (mem s) of
        None \<Rightarrow> None
      | Some m \<Rightarrow>
         (case find_prev m block (head s) 0 of
            None \<Rightarrow> None
          | Some prev \<Rightarrow>
             if prev \<noteq> 0 \<and> free_blk (m prev) \<noteq> 0 then
               let m1 = m(prev := (m prev)\<lparr>size_blk :=
                            size_blk (m prev) + (ALIGNED_METADATA_SIZE + size_blk (m block))\<rparr>);
                   m2 = m1(prev := (m1 prev)\<lparr>next_blk := next_blk (m1 block)\<rparr>)
               in Some (prev, s\<lparr>mem := m2\<rparr>)
             else Some (block, s\<lparr>mem := m\<rparr>)))"

definition mfree :: "addr \<Rightarrow> heap \<Rightarrow> heap option" where
  "mfree ptr s =
     (if ptr = 0 then Some s
      else
        let (heap_end, s1) = sbrk 0 s in
        if ptr < heap_start s1 \<or> ptr \<ge> heap_end then Some s1
        else if \<not> is_aligned ptr then Some s1
        else
          let metadata = ptr - ALIGNED_METADATA_SIZE in
          if free_blk (mem s1 metadata) \<noteq> 0 then Some s1
          else
            let s2 = s1\<lparr>mem := (mem s1)(metadata := (mem s1 metadata)\<lparr>free_blk := 1\<rparr>)\<rparr>
            in map_option snd (coalesce metadata s2))"

text \<open>The part of \<^verbatim>\<open>mallocate\<close> that extends the heap. In the source it is written twice,
  once for the empty list (the new block becomes \<open>head\<close>) and once after the search
  (the new block is linked behind \<open>lst\<close>, the variable \<^verbatim>\<open>last\<close> of the source).\<close>

definition grow_first :: "size_t \<Rightarrow> size_t \<Rightarrow> heap \<Rightarrow> addr \<times> heap" where
  "grow_first aligned_size total_size s =
     (let (allocated, s1) = sbrk total_size s in
      if allocated = - 1 then (0, s1)
      else
        let memory = allocated;
            m1 = (mem s1)(memory := (mem s1 memory)\<lparr>size_blk := aligned_size\<rparr>);
            m2 = m1(memory := (m1 memory)\<lparr>free_blk := 0\<rparr>);
            m3 = m2(memory := (m2 memory)\<lparr>next_blk := 0\<rparr>)
        in (allocated + ALIGNED_METADATA_SIZE, s1\<lparr>mem := m3, head := memory\<rparr>))"

definition grow_last :: "size_t \<Rightarrow> size_t \<Rightarrow> addr \<Rightarrow> heap \<Rightarrow> addr \<times> heap" where
  "grow_last aligned_size total_size lst s =
     (let (allocated, s1) = sbrk total_size s in
      if allocated = - 1 then (0, s1)
      else
        let memory = allocated;
            m1 = (mem s1)(memory := (mem s1 memory)\<lparr>size_blk := aligned_size\<rparr>);
            m2 = m1(memory := (m1 memory)\<lparr>free_blk := 0\<rparr>);
            m3 = m2(memory := (m2 memory)\<lparr>next_blk := 0\<rparr>);
            m4 = m3(lst := (m3 lst)\<lparr>next_blk := memory\<rparr>)
        in (allocated + ALIGNED_METADATA_SIZE, s1\<lparr>mem := m4\<rparr>))"

text \<open>The search loop of \<^verbatim>\<open>mallocate\<close> with what follows it.\<close>

partial_function (option) mallocate_loop ::
    "size_t \<Rightarrow> size_t \<Rightarrow> addr \<Rightarrow> addr \<Rightarrow> heap \<Rightarrow> (addr \<times> heap) option" where
  "mallocate_loop aligned_size total_size cur lst s =
     (if cur \<noteq> 0 then
        if free_blk (mem s cur) \<noteq> 0 \<and> size_blk (mem s cur) \<ge> aligned_size then
          let (cur', s1) = split cur aligned_size s
          in Some (cur' + ALIGNED_METADATA_SIZE, s1)
        else mallocate_loop aligned_size total_size (next_blk (mem s cur)) cur s
      else Some (grow_last aligned_size total_size lst s))"

definition mallocate :: "size_t \<Rightarrow> heap \<Rightarrow> (addr \<times> heap) option" where
  "mallocate sz s0 =
     (let s = (if heap_start s0 = 0 then (let (p, s') = sbrk 0 s0 in s'\<lparr>heap_start := p\<rparr>) else s0);
          aligned_size = align sz;
          total_size = ALIGNED_METADATA_SIZE + aligned_size
      in if head s = 0 then Some (grow_first aligned_size total_size s)
         else mallocate_loop aligned_size total_size (head s) 0 s)"

section \<open>Well-formed heaps\<close>

text \<open>\<open>chain_seg m p bs q\<close>: following \<^verbatim>\<open>next\<close> from \<open>p\<close> visits exactly the blocks \<open>bs\<close>,
  none of them \<^verbatim>\<open>NULL\<close>, and arrives at \<open>q\<close>. A chain is a segment that ends in \<^verbatim>\<open>NULL\<close>.\<close>

fun chain_seg :: "(addr \<Rightarrow> Block) \<Rightarrow> addr \<Rightarrow> addr list \<Rightarrow> addr \<Rightarrow> bool" where
  "chain_seg m p [] q = (p = q)"
| "chain_seg m p (b # bs) q = (p = b \<and> b \<noteq> 0 \<and> chain_seg m (next_blk (m b)) bs q)"

definition chain :: "(addr \<Rightarrow> Block) \<Rightarrow> addr \<Rightarrow> addr list \<Rightarrow> bool" where
  "chain m p bs = chain_seg m p bs 0"

text \<open>\<open>laid m lo bs hi\<close>: the blocks \<open>bs\<close> lie in this order between the addresses \<open>lo\<close>
  and \<open>hi\<close>, each with its header and its usable bytes, without overlap.\<close>

fun laid :: "(addr \<Rightarrow> Block) \<Rightarrow> nat \<Rightarrow> addr list \<Rightarrow> nat \<Rightarrow> bool" where
  "laid m lo [] hi = (lo \<le> hi)"
| "laid m lo (b # bs) hi =
     (lo \<le> unat b \<and> laid m (unat b + unat ALIGNED_METADATA_SIZE + unat (size_blk (m b))) bs hi)"

text \<open>The state the allocator keeps between calls when it is used as intended: \<open>head\<close>
  starts a chain of blocks \<open>bs\<close> laid out between \<open>heap_start\<close> and the program break,
  every block and the break are aligned, and \<open>heap_start\<close> is set once there is a block.\<close>

definition wf_heap :: "heap \<Rightarrow> addr list \<Rightarrow> bool" where
  "wf_heap s bs =
     (chain (mem s) (head s) bs \<and>
      laid (mem s) (unat (heap_start s)) bs (unat (brk s)) \<and>
      list_all is_aligned bs \<and> is_aligned (brk s) \<and> brk s \<noteq> 0 \<and>
      (heap_start s = 0 \<longrightarrow> bs = []))"

fun no_adj_free :: "(addr \<Rightarrow> Block) \<Rightarrow> addr list \<Rightarrow> bool" where
  "no_adj_free m (a # b # bs) =
     ((free_blk (m a) = 0 \<or> free_blk (m b) = 0) \<and> no_adj_free m (b # bs))"
| "no_adj_free m [a] = True"
| "no_adj_free m [] = True"

text \<open>A request fits a block when the block is free and large enough: the test of the
  search loop.\<close>

definition fits :: "(addr \<Rightarrow> Block) \<Rightarrow> size_t \<Rightarrow> addr \<Rightarrow> bool" where
  "fits m aligned_size b = (free_blk (m b) \<noteq> 0 \<and> size_blk (m b) \<ge> aligned_size)"

text \<open>What the first loop of \<^verbatim>\<open>coalesce\<close> meets behind a block: the free blocks that
  directly follow it, the blocks after them, and the bytes the free ones add to the block's
  size, header included.\<close>

definition free_run :: "(addr \<Rightarrow> Block) \<Rightarrow> addr list \<Rightarrow> addr list" where
  "free_run m post = takeWhile (\<lambda>x. free_blk (m x) \<noteq> 0) post"

definition after_run :: "(addr \<Rightarrow> Block) \<Rightarrow> addr list \<Rightarrow> addr list" where
  "after_run m post = dropWhile (\<lambda>x. free_blk (m x) \<noteq> 0) post"

definition absorbed :: "(addr \<Rightarrow> Block) \<Rightarrow> addr list \<Rightarrow> size_t" where
  "absorbed m run = sum_list (map (\<lambda>x. ALIGNED_METADATA_SIZE + size_blk (m x)) run)"

definition first_or_null :: "addr list \<Rightarrow> addr" where
  "first_or_null bs = (case bs of [] \<Rightarrow> 0 | b # _ \<Rightarrow> b)"

text \<open>The bytes a run of blocks occupies, as a number.\<close>

definition span :: "(addr \<Rightarrow> Block) \<Rightarrow> addr list \<Rightarrow> nat" where
  "span m run = sum_list (map (\<lambda>x. 32 + unat (size_blk (m x))) run)"

section \<open>Intended use\<close>

text \<open>The states the allocator reaches when it is used as intended: starting in a process
  whose break is aligned, by requests of at most \<open>2^63 - 48\<close> bytes (so that the increment
  passed to \<^verbatim>\<open>sbrk\<close> is positive), by releasing \<^verbatim>\<open>NULL\<close> or the usable region of a block
  of the chain, and by stores of the caller that leave the headers of the chain alone.\<close>

inductive reachable :: "heap \<Rightarrow> bool" where
  fresh: "\<lbrakk>head s = 0; heap_start s = 0; is_aligned (brk s); brk s \<noteq> 0\<rbrakk> \<Longrightarrow> reachable s"
| allocate: "\<lbrakk>reachable s; unat n + 47 < 2 ^ 63; mallocate n s = Some (p, s')\<rbrakk> \<Longrightarrow> reachable s'"
| release: "\<lbrakk>reachable s; chain (mem s) (head s) bs;
             ptr = 0 \<or> ptr - ALIGNED_METADATA_SIZE \<in> set bs; mfree ptr s = Some s'\<rbrakk>
            \<Longrightarrow> reachable s'"
| store: "\<lbrakk>reachable s; chain (mem s) (head s) bs; list_all (\<lambda>b. m' b = mem s b) bs\<rbrakk>
          \<Longrightarrow> reachable (s\<lparr>mem := m'\<rparr>)"

code_pred reachable .

section \<open>Sequences of calls\<close>

text \<open>A program that uses the allocator, as the demonstration programs of the repository
  do: calls of \<^verbatim>\<open>mallocate\<close> and \<^verbatim>\<open>mfree\<close> one after the other. The result is the
  pointers that the calls of \<^verbatim>\<open>mallocate\<close> returned, in their order, and the state after
  the last call.\<close>

datatype call = Mallocate size_t | Mfree addr

fun run_calls :: "call list \<Rightarrow> heap \<Rightarrow> (addr list \<times> heap) option" where
  "run_calls [] s = Some ([], s)"
| "run_calls (Mallocate n # cs) s =
     (case mallocate n s of
        None \<Rightarrow> None
      | Some (p, s') \<Rightarrow> map_option (\<lambda>(ps, t). (p # ps, t)) (run_calls cs s'))"
| "run_calls (Mfree p # cs) s =
     (case mfree p s of
        None \<Rightarrow> None
      | Some s' \<Rightarrow> run_calls cs s')"

section \<open>Example heaps\<close>

text \<open>A store of zeroes, and a heap of one free block of 64 usable bytes at address 4096.\<close>

definition mem0 :: "addr \<Rightarrow> Block" where
  "mem0 = (\<lambda>_. \<lparr>size_blk = 0, free_blk = 0, next_blk = 0\<rparr>)"

definition heap_one_free :: heap where
  "heap_one_free =
     \<lparr>mem = mem0(4096 := \<lparr>size_blk = 64, free_blk = 1, next_blk = 0\<rparr>),
      head = 4096, heap_start = 4096, brk = 4192, brk_lo = 4096, brk_hi = 65536\<rparr>"

text \<open>The same heap with its block allocated.\<close>

definition heap_one_alloc :: heap where
  "heap_one_alloc =
     \<lparr>mem = mem0(4096 := \<lparr>size_blk = 64, free_blk = 0, next_blk = 0\<rparr>),
      head = 4096, heap_start = 4096, brk = 4192, brk_lo = 4096, brk_hi = 65536\<rparr>"

text \<open>The heap of a process that has not allocated yet, and a heap whose break cannot
  move any further.\<close>

definition heap_fresh :: heap where
  "heap_fresh =
     \<lparr>mem = mem0, head = 0, heap_start = 0, brk = 4096, brk_lo = 4096, brk_hi = 65536\<rparr>"

definition heap_full :: heap where
  "heap_full = heap_one_alloc\<lparr>brk_hi := 4192\<rparr>"

text \<open>Three blocks of 64, 32 and 48 usable bytes; the middle one is allocated, its two
  neighbours are free.\<close>

definition heap_three :: heap where
  "heap_three =
     \<lparr>mem = mem0(4096 := \<lparr>size_blk = 64, free_blk = 1, next_blk = 4192\<rparr>,
                 4192 := \<lparr>size_blk = 32, free_blk = 0, next_blk = 4256\<rparr>,
                 4256 := \<lparr>size_blk = 48, free_blk = 1, next_blk = 0\<rparr>),
      head = 4096, heap_start = 4096, brk = 4336, brk_lo = 4096, brk_hi = 65536\<rparr>"

text \<open>The heaps of the scenario of the demonstration programs: 64, 32 and 48 bytes are
  allocated one after the other, then the second block is released, then the third.\<close>

definition heap_two :: heap where
  "heap_two =
     \<lparr>mem = mem0(4096 := \<lparr>size_blk = 64, free_blk = 0, next_blk = 4192\<rparr>,
                 4192 := \<lparr>size_blk = 32, free_blk = 0, next_blk = 0\<rparr>),
      head = 4096, heap_start = 4096, brk = 4256, brk_lo = 4096, brk_hi = 65536\<rparr>"

definition heap_three_alloc :: heap where
  "heap_three_alloc =
     \<lparr>mem = mem0(4096 := \<lparr>size_blk = 64, free_blk = 0, next_blk = 4192\<rparr>,
                 4192 := \<lparr>size_blk = 32, free_blk = 0, next_blk = 4256\<rparr>,
                 4256 := \<lparr>size_blk = 48, free_blk = 0, next_blk = 0\<rparr>),
      head = 4096, heap_start = 4096, brk = 4336, brk_lo = 4096, brk_hi = 65536\<rparr>"

definition heap_b_free :: heap where
  "heap_b_free =
     \<lparr>mem = mem0(4096 := \<lparr>size_blk = 64, free_blk = 0, next_blk = 4192\<rparr>,
                 4192 := \<lparr>size_blk = 32, free_blk = 1, next_blk = 4256\<rparr>,
                 4256 := \<lparr>size_blk = 48, free_blk = 0, next_blk = 0\<rparr>),
      head = 4096, heap_start = 4096, brk = 4336, brk_lo = 4096, brk_hi = 65536\<rparr>"

definition heap_bc_merged :: heap where
  "heap_bc_merged =
     \<lparr>mem = mem0(4096 := \<lparr>size_blk = 64, free_blk = 0, next_blk = 4192\<rparr>,
                 4192 := \<lparr>size_blk = 112, free_blk = 1, next_blk = 0\<rparr>,
                 4256 := \<lparr>size_blk = 48, free_blk = 1, next_blk = 0\<rparr>),
      head = 4096, heap_start = 4096, brk = 4336, brk_lo = 4096, brk_hi = 65536\<rparr>"

text \<open>Five blocks: a free one, an allocated one of 16 usable bytes, two free ones of 16
  bytes each directly behind it, and an allocated one. The allocator does not leave two
  free blocks next to each other when it is used as intended; the heap serves to follow
  the loop of \<^verbatim>\<open>coalesce\<close> over more than one block.\<close>

definition heap_runs :: heap where
  "heap_runs =
     \<lparr>mem = mem0(4096 := \<lparr>size_blk = 64, free_blk = 1, next_blk = 4192\<rparr>,
                 4192 := \<lparr>size_blk = 16, free_blk = 0, next_blk = 4240\<rparr>,
                 4240 := \<lparr>size_blk = 16, free_blk = 1, next_blk = 4288\<rparr>,
                 4288 := \<lparr>size_blk = 16, free_blk = 1, next_blk = 4336\<rparr>,
                 4336 := \<lparr>size_blk = 16, free_blk = 0, next_blk = 0\<rparr>),
      head = 4096, heap_start = 4096, brk = 4384, brk_lo = 4096, brk_hi = 65536\<rparr>"

text \<open>The heap after \<^verbatim>\<open>mallocate(0)\<close> in a fresh process: one block without usable bytes.\<close>

definition heap_zero :: heap where
  "heap_zero =
     \<lparr>mem = mem0(4096 := \<lparr>size_blk = 0, free_blk = 0, next_blk = 0\<rparr>),
      head = 4096, heap_start = 4096, brk = 4128, brk_lo = 4096, brk_hi = 65536\<rparr>"

section \<open>Constants and alignment\<close>

lemma ams[simp]: "ALIGNED_METADATA_SIZE = 32"
  by (simp add: ALIGNED_METADATA_SIZE_def sizeof_Block_def ALIGNMENT_def)

lemma mbs[simp]: "MIN_BLOCK_SIZE = 48"
  by (simp add: MIN_BLOCK_SIZE_def ALIGNMENT_def)

lemma align_and: "align sz = (sz + 15) AND NOT 15"
  by (simp add: align_def ALIGNMENT_def add.commute)

lemma is_aligned_dvd: "is_aligned a \<longleftrightarrow> 16 dvd unat a"
proof -
  have "a mod 16 = 0 \<longleftrightarrow> unat (a mod 16) = 0"
    by (simp add: unat_eq_zero)
  then show ?thesis
    by (simp add: is_aligned_def ALIGNMENT_def unat_mod mod_eq_0_iff_dvd)
qed

lemma is_aligned_add: "is_aligned a \<Longrightarrow> is_aligned b \<Longrightarrow> is_aligned (a + b)"
  unfolding is_aligned_dvd
  by (simp add: unat_word_ariths dvd_mod_iff)

lemma and_not_15: "(x :: 64 word) AND NOT (mask 4) = x - take_bit 4 x"
proof -
  have "NOT x AND take_bit 4 x = 0"
    by (simp only: bit_eq_iff bit_simps) auto
  then have "x - take_bit 4 x = x AND NOT (take_bit 4 x)"
    by (rule disjunctive_diff_eq_and_not)
  also have "\<dots> = x AND NOT (mask 4)"
    by (simp only: bit_eq_iff bit_simps) auto
  finally show ?thesis by simp
qed

lemma unat_and_not_15: "unat ((x :: 64 word) AND NOT 15) = unat x - unat x mod 16"
proof -
  have m: "(15 :: 64 word) = mask 4" by (simp add: mask_eq_exp_minus_1)
  have "unat (take_bit 4 x) = take_bit 4 (unat x)"
    by (rule unsigned_take_bit_eq)
  also have "\<dots> = unat x mod 2 ^ 4"
    by (rule take_bit_eq_mod)
  finally have t: "unat (take_bit 4 x) = unat x mod 16"
    by (simp del: take_bit_numeral_numeral)
  have "take_bit 4 x \<le> x"
    unfolding word_le_nat_alt t by simp
  then have "unat (x - take_bit 4 x) = unat x - unat x mod 16"
    by (simp only: unat_sub t)
  then show ?thesis
    by (simp only: m and_not_15)
qed

lemma unat_align: "unat (align sz) = (unat sz + 15) mod 2 ^ 64 - (unat sz + 15) mod 2 ^ 64 mod 16"
  by (simp only: align_and unat_and_not_15 unat_word_ariths) simp

lemma is_aligned_align: "is_aligned (align sz)"
  unfolding is_aligned_dvd unat_align
  by (metis dvd_minus_mod)

lemma align_ge:
  assumes "unat sz \<le> 2 ^ 64 - 16"
  shows "unat sz \<le> unat (align sz)" and "unat (align sz) < unat sz + 16"
proof -
  have "(unat sz + 15) mod 2 ^ 64 = unat sz + 15"
    using assms by simp
  then have e: "unat (align sz) = unat sz + 15 - (unat sz + 15) mod 16"
    by (simp add: unat_align)
  show "unat sz \<le> unat (align sz)" unfolding e by presburger
  show "unat (align sz) < unat sz + 16" unfolding e by presburger
qed

section \<open>Chains and layout\<close>

lemma chain_seg_append:
  "chain_seg m p (as @ bs) q \<longleftrightarrow> (\<exists>r. chain_seg m p as r \<and> chain_seg m r bs q)"
  by (induction as arbitrary: p) auto

lemma chain_seg_cong:
  "\<forall>b\<in>set bs. next_blk (m' b) = next_blk (m b) \<Longrightarrow> chain_seg m' p bs q = chain_seg m p bs q"
  by (induction bs arbitrary: p) auto

lemma chain_seg_nonnull: "chain_seg m p bs q \<Longrightarrow> 0 \<notin> set bs"
  by (induction bs arbitrary: p) auto

lemma chain_seg_unique:
  "chain_seg m p bs 0 \<Longrightarrow> chain_seg m p cs 0 \<Longrightarrow> bs = cs"
proof (induction bs arbitrary: p cs)
  case Nil
  then show ?case by (cases cs) auto
next
  case (Cons b bs)
  then show ?case by (cases cs) auto
qed

lemma laid_cong:
  "\<forall>b\<in>set bs. size_blk (m' b) = size_blk (m b) \<Longrightarrow> laid m' lo bs hi = laid m lo bs hi"
  by (induction bs arbitrary: lo) auto

lemma laid_le: "laid m lo bs hi \<Longrightarrow> lo \<le> hi"
proof (induction bs arbitrary: lo)
  case Nil
  then show ?case by simp
next
  case (Cons a bs)
  from Cons.prems have "lo \<le> unat a" and "laid m (unat a + 32 + unat (size_blk (m a))) bs hi"
    by simp_all
  with Cons.IH [of "unat a + 32 + unat (size_blk (m a))"] show ?case by simp
qed

lemma laid_lo: "laid m lo bs hi \<Longrightarrow> lo' \<le> lo \<Longrightarrow> laid m lo' bs hi"
  by (cases bs) auto

lemma laid_append:
  "laid m lo (as @ b # bs) hi \<longleftrightarrow> laid m lo as (unat b) \<and> laid m (unat b) (b # bs) hi"
  by (induction as arbitrary: lo) auto

lemma laid_member:
  "laid m lo bs hi \<Longrightarrow> b \<in> set bs \<Longrightarrow>
   lo \<le> unat b \<and> unat b + 32 + unat (size_blk (m b)) \<le> hi"
proof (induction bs arbitrary: lo)
  case Nil
  then show ?case by simp
next
  case (Cons a bs)
  show ?case
  proof (cases "b = a")
    case True
    with Cons.prems show ?thesis using laid_le [of m _ bs hi] by auto
  next
    case False
    with Cons.prems have "b \<in> set bs" by simp
    with Cons.prems Cons.IH [of "unat a + 32 + unat (size_blk (m a))"]
    show ?thesis by auto
  qed
qed

lemma laid_distinct: "laid m lo bs hi \<Longrightarrow> distinct bs"
proof (induction bs arbitrary: lo)
  case Nil
  then show ?case by simp
next
  case (Cons a bs)
  have "a \<notin> set bs"
  proof
    assume "a \<in> set bs"
    with Cons.prems have "unat a + 32 + unat (size_blk (m a)) \<le> unat a"
      using laid_member [of m "unat a + 32 + unat (size_blk (m a))" bs hi a] by simp
    then show False by simp
  qed
  with Cons show ?case by auto
qed

lemma find_split:
  "find P xs = Some x \<Longrightarrow> \<exists>pre post. xs = pre @ x # post \<and> P x \<and> (\<forall>y\<in>set pre. \<not> P y)"
proof (induction xs)
  case Nil
  then show ?case by simp
next
  case (Cons a xs)
  show ?case
  proof (cases "P a")
    case True
    with Cons.prems have "a = x" by simp
    with True show ?thesis by (intro exI [of _ "[]"] exI [of _ xs]) simp
  next
    case False
    with Cons obtain pre post where "xs = pre @ x # post" "P x" "\<forall>y\<in>set pre. \<not> P y"
      by auto
    with False show ?thesis by (intro exI [of _ "a # pre"] exI [of _ post]) simp
  qed
qed

lemma mallocate_loop_chain:
  "chain_seg (mem s) cur bs 0 \<Longrightarrow>
   mallocate_loop asz tot cur lst s =
     (case find (fits (mem s) asz) bs of
        Some b \<Rightarrow> Some (b + 32, snd (split b asz s))
      | None \<Rightarrow> Some (grow_last asz tot (last (lst # bs)) s))"
proof (induction bs arbitrary: cur lst)
  case Nil
  then show ?case by (subst mallocate_loop.simps) simp
next
  case (Cons b bs)
  from Cons.prems have c: "cur = b" "b \<noteq> 0" "chain_seg (mem s) (next_blk (mem s b)) bs 0"
    by simp_all
  have fst_split: "fst (split b asz s) = b"
    by (simp add: split_def Let_def)
  show ?case
  proof (cases "fits (mem s) asz b")
    case True
    then have t: "free_blk (mem s b) \<noteq> 0 \<and> asz \<le> size_blk (mem s b)"
      by (simp add: fits_def)
    show ?thesis
      by (subst mallocate_loop.simps) (simp add: c t True fst_split split_beta)
  next
    case False
    then have f: "\<not> (free_blk (mem s b) \<noteq> 0 \<and> asz \<le> size_blk (mem s b))"
      by (simp add: fits_def)
    show ?thesis
      by (subst mallocate_loop.simps) (simp add: c f False Cons.IH [OF c(3)] split: option.split)
  qed
qed

section \<open>Splitting a block\<close>

lemma Block_upd_all:
  "r\<lparr>size_blk := a, free_blk := f, next_blk := n\<rparr> = \<lparr>size_blk = a, free_blk = f, next_blk = n\<rparr>"
  for r :: Block
  by (cases r) simp

lemma split_small:
  "size_blk (mem s b) < sz + MIN_BLOCK_SIZE \<Longrightarrow>
   split b sz s = (b, s\<lparr>mem := (mem s)(b := (mem s b)\<lparr>free_blk := 0\<rparr>)\<rparr>)"
  by (simp add: split_def)

lemma split_big:
  "\<not> size_blk (mem s b) < sz + MIN_BLOCK_SIZE \<Longrightarrow> b + 32 + sz \<noteq> b \<Longrightarrow>
   split b sz s =
     (b, s\<lparr>mem := (mem s)
        (b + 32 + sz := \<lparr>size_blk = size_blk (mem s b) - sz - 32, free_blk = 1,
                         next_blk = next_blk (mem s b)\<rparr>,
         b := \<lparr>size_blk = sz, free_blk = 0, next_blk = b + 32 + sz\<rparr>)\<rparr>)"
  by (simp add: split_def Let_def Block_upd_all)

lemma split_arith:
  fixes b asz sz :: "64 word"
  assumes "unat b + 32 + unat sz < 2 ^ 64" and "16 \<le> unat b" and "asz \<le> sz"
    and "\<not> sz < asz + 48"
  shows "unat asz + 48 \<le> unat sz"
    and "unat (b + 32 + asz) = unat b + 32 + unat asz"
    and "unat (sz - asz - 32) = unat sz - unat asz - 32"
proof -
  have le: "unat asz \<le> unat sz"
    using assms(3) by (simp add: word_le_nat_alt)
  have "unat (asz + 48) = (unat asz + 48) mod 2 ^ 64"
    by (simp add: unat_word_ariths)
  also have "\<dots> = unat asz + 48"
    using assms(1,2) le by simp
  finally have a48: "unat (asz + 48) = unat asz + 48" .
  show g1: "unat asz + 48 \<le> unat sz"
    using assms(4) a48 by (simp add: word_less_nat_alt)
  have "unat (b + 32 + asz) = (unat b + 32 + unat asz) mod 2 ^ 64"
    by (simp add: unat_word_ariths mod_simps)
  also have "\<dots> = unat b + 32 + unat asz"
    using assms(1) le by simp
  finally show "unat (b + 32 + asz) = unat b + 32 + unat asz" .
  have d1: "unat (sz - asz) = unat sz - unat asz"
    using assms(3) by (rule unat_sub)
  have "(32 :: 64 word) \<le> sz - asz"
    using g1 d1 by (simp add: word_le_nat_alt)
  then have "unat (sz - asz - 32) = unat (sz - asz) - unat (32 :: 64 word)"
    by (rule unat_sub)
  then show "unat (sz - asz - 32) = unat sz - unat asz - 32"
    using d1 by simp
qed

lemma aligned_nonzero: "is_aligned a \<Longrightarrow> a \<noteq> 0 \<Longrightarrow> 16 \<le> unat a"
  unfolding is_aligned_dvd
  by (metis dvd_imp_le unat_eq_zero not_gr_zero)

lemma wf_heap_parts:
  assumes "wf_heap s (pre @ b # post)"
  shows "chain_seg (mem s) (head s) pre b" and "b \<noteq> 0"
    and "chain_seg (mem s) (next_blk (mem s b)) post 0"
    and "laid (mem s) (unat (heap_start s)) pre (unat b)"
    and "laid (mem s) (unat b + 32 + unat (size_blk (mem s b))) post (unat (brk s))"
    and "distinct (pre @ b # post)"
    and "16 \<le> unat b" and "is_aligned b"
    and "unat b + 32 + unat (size_blk (mem s b)) \<le> unat (brk s)"
    and "unat (heap_start s) \<le> unat b"
proof -
  from assms have c: "chain_seg (mem s) (head s) (pre @ b # post) 0"
    and l: "laid (mem s) (unat (heap_start s)) (pre @ b # post) (unat (brk s))"
    and a: "list_all is_aligned (pre @ b # post)"
    by (simp_all add: wf_heap_def chain_def)
  from c obtain r where r: "chain_seg (mem s) (head s) pre r" "chain_seg (mem s) r (b # post) 0"
    unfolding chain_seg_append by blast
  then show "chain_seg (mem s) (head s) pre b" and "b \<noteq> 0"
    and "chain_seg (mem s) (next_blk (mem s b)) post 0"
    by simp_all
  from l show "laid (mem s) (unat (heap_start s)) pre (unat b)"
    and "laid (mem s) (unat b + 32 + unat (size_blk (mem s b))) post (unat (brk s))"
    by (simp_all add: laid_append)
  from l show "distinct (pre @ b # post)" by (rule laid_distinct)
  from a have "is_aligned b" by simp
  then show "is_aligned b" .
  from \<open>is_aligned b\<close> \<open>b \<noteq> 0\<close> show "16 \<le> unat b" by (rule aligned_nonzero)
  from l show "unat b + 32 + unat (size_blk (mem s b)) \<le> unat (brk s)"
    and "unat (heap_start s) \<le> unat b"
    using laid_member [of "mem s" _ "pre @ b # post" _ b] by simp_all
qed

lemma unat_lt64: "unat (x :: 64 word) < 2 ^ 64"
  using unsigned_less [of x, where ?'a = nat] by simp

lemma laid_before:
  "laid m lo bs hi \<Longrightarrow> x \<in> set bs \<Longrightarrow> unat x < hi"
  using laid_member [of m lo bs hi x] by simp

lemma laid_after:
  "laid m lo bs hi \<Longrightarrow> x \<in> set bs \<Longrightarrow> lo \<le> unat x"
  using laid_member [of m lo bs hi x] by simp

lemma split_wf:
  assumes wf: "wf_heap s (pre @ b # post)"
    and fit: "asz \<le> size_blk (mem s b)"
    and al: "is_aligned asz"
  shows "wf_heap (snd (split b asz s))
           (pre @ b # (if size_blk (mem s b) < asz + MIN_BLOCK_SIZE then []
                       else [b + ALIGNED_METADATA_SIZE + asz]) @ post)"
proof (cases "size_blk (mem s b) < asz + MIN_BLOCK_SIZE")
  case True
  let ?m' = "(mem s)(b := (mem s b)\<lparr>free_blk := 0\<rparr>)"
  have n: "\<And>x. next_blk (?m' x) = next_blk (mem s x)"
    and z: "\<And>x. size_blk (?m' x) = size_blk (mem s x)"
    by simp_all
  have "chain_seg ?m' (head s) (pre @ b # post) 0 = chain_seg (mem s) (head s) (pre @ b # post) 0"
    by (rule chain_seg_cong) (simp add: n)
  moreover have "laid ?m' (unat (heap_start s)) (pre @ b # post) (unat (brk s))
    = laid (mem s) (unat (heap_start s)) (pre @ b # post) (unat (brk s))"
    by (rule laid_cong) (simp add: z)
  ultimately show ?thesis
    using wf True by (simp add: split_small wf_heap_def chain_def)
next
  case False
  define nb where "nb = b + 32 + asz"
  define sz where "sz = size_blk (mem s b)"
  note p = wf_heap_parts [OF wf]
  have lt: "unat b + 32 + unat sz < 2 ^ 64"
    using p(9) unat_lt64 [of "brk s"] by (simp add: sz_def)
  have ns: "\<not> sz < asz + 48" using False by (simp add: sz_def)
  have fit': "asz \<le> sz" using fit by (simp add: sz_def)
  note ar = split_arith [OF lt p(7) fit' ns]
  have unb: "unat nb = unat b + 32 + unat asz"
    using ar(2) by (simp add: nb_def)
  have nb_b: "nb \<noteq> b"
    using unb by auto
  have nb_pre: "nb \<notin> set pre"
    using laid_before [OF p(4)] unb by fastforce
  have nb_post: "nb \<notin> set post"
    using laid_after [OF p(5)] unb ar(1) by (fastforce simp: sz_def)
  have nb0: "nb \<noteq> 0"
    using unb by (auto simp: unat_eq_zero [symmetric] simp del: unat_eq_zero)
  have nb_al: "is_aligned nb"
    unfolding nb_def using p(8) al by (intro is_aligned_add) (simp_all add: is_aligned_dvd)
  define m' where "m' = (mem s)
        (nb := \<lparr>size_blk = sz - asz - 32, free_blk = 1, next_blk = next_blk (mem s b)\<rparr>,
         b := \<lparr>size_blk = asz, free_blk = 0, next_blk = nb\<rparr>)"
  have sp: "split b asz s = (b, s\<lparr>mem := m'\<rparr>)"
    using split_big [of s b asz] False nb_b by (simp add: nb_def m'_def sz_def)
  have b_pre: "b \<notin> set pre" and b_post: "b \<notin> set post"
    using p(6) by simp_all
  have c1: "chain_seg m' (head s) pre b = chain_seg (mem s) (head s) pre b"
    by (rule chain_seg_cong) (use nb_pre b_pre in \<open>auto simp: m'_def\<close>)
  have c2: "chain_seg m' (next_blk (mem s b)) post 0 = chain_seg (mem s) (next_blk (mem s b)) post 0"
    by (rule chain_seg_cong) (use nb_post b_post in \<open>auto simp: m'_def\<close>)
  have l1: "laid m' (unat (heap_start s)) pre (unat b) = laid (mem s) (unat (heap_start s)) pre (unat b)"
    by (rule laid_cong) (use nb_pre b_pre in \<open>auto simp: m'_def\<close>)
  have l2: "laid m' (unat b + 32 + unat sz) post (unat (brk s))
      = laid (mem s) (unat b + 32 + unat sz) post (unat (brk s))"
    by (rule laid_cong) (use nb_post b_post in \<open>auto simp: m'_def\<close>)
  have mb: "m' b = \<lparr>size_blk = asz, free_blk = 0, next_blk = nb\<rparr>"
    and mnb: "m' nb = \<lparr>size_blk = sz - asz - 32, free_blk = 1, next_blk = next_blk (mem s b)\<rparr>"
    using nb_b by (simp_all add: m'_def)
  have ch: "chain_seg m' (head s) (pre @ b # nb # post) 0"
    unfolding chain_seg_append
    using c1 c2 p(1,2,3) nb0 mb mnb by auto
  have e: "unat nb + 32 + unat (sz - asz - 32) = unat b + 32 + unat sz"
    using unb ar(1,3) by simp
  have "laid m' (unat b + 32 + unat sz) post (unat (brk s))"
    using l2 p(5) by (simp add: sz_def)
  then have l3: "laid m' (unat nb + 32 + unat (size_blk (m' nb))) post (unat (brk s))"
    by (simp only: mnb Block.simps e)
  have l4: "unat b + 32 + unat (size_blk (m' b)) = unat nb"
    by (simp only: mb Block.simps unb)
  have "laid m' (unat b) (b # nb # post) (unat (brk s))"
    using l3 l4 by simp
  moreover have "laid m' (unat (heap_start s)) pre (unat b)"
    using l1 p(4) by simp
  ultimately have la: "laid m' (unat (heap_start s)) (pre @ b # nb # post) (unat (brk s))"
    unfolding laid_append by simp
  have "wf_heap (s\<lparr>mem := m'\<rparr>) (pre @ b # nb # post)"
    using wf ch la nb_al by (simp add: wf_heap_def chain_def)
  then show ?thesis
    using False sp by (simp add: nb_def)
qed

section \<open>What split does\<close>

text \<open>
  \<^verbatim>\<open>split(block, size)\<close> for a size whose sum with \<^verbatim>\<open>MIN_BLOCK_SIZE\<close> is representable
  in \<^verbatim>\<open>size_t\<close>: when the block has fewer than \<open>size + header + alignment\<close> usable bytes
  it is only marked allocated, its size and its successor stay, and nothing else in memory
  changes. Otherwise the block gets size \<open>size\<close>, is marked allocated and is linked to a
  new free block that starts right behind the first \<open>size\<close> usable bytes, has the
  remaining \<open>block size - size - header\<close> bytes and the old successor as its successor.
  The function returns the block it was given. For the other sizes see \<open>split_wraps\<close>
  below.
\<close>

lemma split_spec:
  assumes "unat sz + unat MIN_BLOCK_SIZE < 2 ^ 64"
  shows "(unat (size_blk (mem s block)) < unat sz + unat ALIGNED_METADATA_SIZE + unat ALIGNMENT \<longrightarrow>
            split block sz s = (block, s\<lparr>mem := (mem s)(block := (mem s block)\<lparr>free_blk := 0\<rparr>)\<rparr>)) \<and>
         (\<not> unat (size_blk (mem s block)) < unat sz + unat ALIGNED_METADATA_SIZE + unat ALIGNMENT \<longrightarrow>
            (let new_block = block + ALIGNED_METADATA_SIZE + sz;
                 leftover = size_blk (mem s block) - sz - ALIGNED_METADATA_SIZE
             in new_block \<noteq> block \<and>
                unat leftover = unat (size_blk (mem s block)) - unat sz - unat ALIGNED_METADATA_SIZE \<and>
                split block sz s =
                  (block, s\<lparr>mem := (mem s)
                     (new_block := \<lparr>size_blk = leftover, free_blk = 1,
                                     next_blk = next_blk (mem s block)\<rparr>,
                      block := \<lparr>size_blk = sz, free_blk = 0, next_blk = new_block\<rparr>)\<rparr>)))"
proof -
  have "unat (sz + 48) = (unat sz + 48) mod 2 ^ 64"
    by (simp add: unat_word_ariths)
  also have "\<dots> = unat sz + 48"
    using assms by simp
  finally have a48: "unat (sz + 48) = unat sz + 48" .
  have lt: "size_blk (mem s block) < sz + 48 \<longleftrightarrow> unat (size_blk (mem s block)) < unat sz + 48"
    by (simp add: word_less_nat_alt a48)
  have "unat (32 + sz) = (32 + unat sz) mod 2 ^ 64"
    by (simp add: unat_word_ariths)
  also have "\<dots> = 32 + unat sz"
    using assms by simp
  finally have "unat (32 + sz) \<noteq> 0" by simp
  then have ne: "block + 32 + sz \<noteq> block"
    by (auto simp: add.assoc)
  show ?thesis
  proof (cases "size_blk (mem s block) < sz + 48")
    case True
    then show ?thesis
      using lt by (simp add: split_small ALIGNMENT_def)
  next
    case False
    then have ge: "unat sz + 48 \<le> unat (size_blk (mem s block))"
      using lt by simp
    then have "sz \<le> size_blk (mem s block)"
      by (simp add: word_le_nat_alt)
    then have d1: "unat (size_blk (mem s block) - sz) = unat (size_blk (mem s block)) - unat sz"
      by (rule unat_sub)
    then have "(32 :: 64 word) \<le> size_blk (mem s block) - sz"
      using ge by (simp add: word_le_nat_alt)
    then have "unat (size_blk (mem s block) - sz - 32)
        = unat (size_blk (mem s block) - sz) - unat (32 :: 64 word)"
      by (rule unat_sub)
    then have d2: "unat (size_blk (mem s block) - sz - 32) = unat (size_blk (mem s block)) - unat sz - 32"
      using d1 by simp
    show ?thesis
      using False lt ne d2 split_big [of s block sz]
      by (simp add: ALIGNMENT_def Let_def)
  qed
qed

lemma split_spec_example:
  "unat (16 :: size_t) + unat MIN_BLOCK_SIZE < 2 ^ 64 \<and>
   split 4096 16 heap_one_free =
     (4096, heap_one_free\<lparr>mem := (mem heap_one_free)
        (4144 := \<lparr>size_blk = 16, free_blk = 1, next_blk = 0\<rparr>,
         4096 := \<lparr>size_blk = 16, free_blk = 0, next_blk = 4144\<rparr>)\<rparr>) \<and>
   split 4096 32 heap_one_free =
     (4096, heap_one_free\<lparr>mem := (mem heap_one_free)
        (4096 := \<lparr>size_blk = 64, free_blk = 0, next_blk = 0\<rparr>)\<rparr>)"
  using split_spec [of 16 heap_one_free 4096] split_spec [of 32 heap_one_free 4096]
  by (simp add: heap_one_free_def ALIGNMENT_def Let_def)

section \<open>The search of mallocate\<close>

lemma split_free_blk: "free_blk (mem (snd (split b sz s)) b) = 0"
  by (simp add: split_def Let_def)

lemma chain_head:
  "chain m p bs \<Longrightarrow> bs \<noteq> [] \<Longrightarrow> p \<noteq> 0"
  by (cases bs) (auto simp: chain_def)

lemma mallocate_fit:
  assumes wf: "wf_heap s bs"
    and x: "x \<in> set bs" "fits (mem s) (align n) x"
  shows "\<exists>pre b post s'.
           bs = pre @ b # post \<and> fits (mem s) (align n) b \<and>
           list_all (\<lambda>y. \<not> fits (mem s) (align n) y) pre \<and>
           mallocate n s = Some (b + ALIGNED_METADATA_SIZE, s') \<and>
           s' = snd (split b (align n) s) \<and>
           head s' = head s \<and> heap_start s' = heap_start s \<and> brk s' = brk s \<and>
           free_blk (mem s' b) = 0 \<and>
           wf_heap s' (pre @ b # (if size_blk (mem s b) < align n + MIN_BLOCK_SIZE then []
                                   else [b + ALIGNED_METADATA_SIZE + align n]) @ post)"
proof -
  from x have "find (fits (mem s) (align n)) bs \<noteq> None"
    by (auto simp: find_None_iff)
  then obtain b where f: "find (fits (mem s) (align n)) bs = Some b"
    by auto
  from find_split [OF f] obtain pre post where
    bs: "bs = pre @ b # post" and fb: "fits (mem s) (align n) b"
    and np: "\<forall>y\<in>set pre. \<not> fits (mem s) (align n) y"
    by blast
  from wf have ch: "chain (mem s) (head s) bs" and hs: "heap_start s \<noteq> 0"
    using x(1) by (auto simp: wf_heap_def)
  from x(1) have "bs \<noteq> []" by auto
  with ch have hd: "head s \<noteq> 0"
    by (rule chain_head)
  from ch have cs: "chain_seg (mem s) (head s) bs 0"
    by (simp add: chain_def)
  have m: "mallocate n s = Some (b + 32, snd (split b (align n) s))"
    using hs hd mallocate_loop_chain [OF cs, of "align n" "32 + align n" 0] f
    by (simp add: mallocate_def Let_def)
  from fb have le: "align n \<le> size_blk (mem s b)"
    by (simp add: fits_def)
  have w: "wf_heap (snd (split b (align n) s))
      (pre @ b # (if size_blk (mem s b) < align n + MIN_BLOCK_SIZE then []
                  else [b + ALIGNED_METADATA_SIZE + align n]) @ post)"
    using wf le is_aligned_align unfolding bs by (rule split_wf)
  have o: "head (snd (split b (align n) s)) = head s"
    "heap_start (snd (split b (align n) s)) = heap_start s"
    "brk (snd (split b (align n) s)) = brk s"
    by (simp_all add: split_def Let_def)
  show ?thesis
    using bs fb np m w o split_free_blk [of b "align n" s]
    by (intro exI [of _ pre] exI [of _ b] exI [of _ post]
          exI [of _ "snd (split b (align n) s)"]) (simp add: list_all_iff)
qed

text \<open>
  C1. First fit. In a well-formed heap in which some block of the chain is free and has
  at least the aligned size, \<^verbatim>\<open>mallocate\<close> returns the usable region of the first such
  block in chain order, after \<^verbatim>\<open>split\<close>. The result state is that of \<^verbatim>\<open>split\<close>: the
  program break, \<open>head\<close> and \<open>heap_start\<close> are as before, so \<^verbatim>\<open>sbrk\<close> has not moved
  the break, and the chain is the old one, with the remainder of the split behind the
  block when there is one, inside the old layout: no block is appended.
\<close>

theorem mallocate_first_fit:
  assumes wf: "wf_heap s bs"
    and x: "x \<in> set bs" "fits (mem s) (align n) x"
  shows "\<exists>pre b post s'.
           bs = pre @ b # post \<and> fits (mem s) (align n) b \<and>
           list_all (\<lambda>y. \<not> fits (mem s) (align n) y) pre \<and>
           mallocate n s = Some (b + ALIGNED_METADATA_SIZE, s') \<and>
           s' = snd (split b (align n) s) \<and>
           head s' = head s \<and> heap_start s' = heap_start s \<and> brk s' = brk s \<and>
           free_blk (mem s' b) = 0 \<and>
           wf_heap s' (pre @ b # (if size_blk (mem s b) < align n + MIN_BLOCK_SIZE then []
                                   else [b + ALIGNED_METADATA_SIZE + align n]) @ post)"
  using assms by (rule mallocate_fit)

lemma wf_heap_one_free: "wf_heap heap_one_free [4096]"
  by (simp add: wf_heap_def chain_def heap_one_free_def mem0_def is_aligned_def ALIGNMENT_def)

theorem mallocate_first_fit_witness:
  "wf_heap heap_one_free [4096] \<and> fits (mem heap_one_free) (align 10) 4096 \<and>
   (\<exists>s'. mallocate 10 heap_one_free = Some (4128, s') \<and> brk s' = 4192 \<and>
         wf_heap s' [4096, 4144])"
proof -
  note w = wf_heap_one_free
  have f: "fits (mem heap_one_free) (align 10) 4096"
    by (simp add: fits_def heap_one_free_def align_and)
  have a: "align 10 = 16" by (simp add: align_and)
  from mallocate_first_fit [OF w _ f] obtain pre b post s' where
    r: "[4096] = pre @ b # post" "mallocate 10 heap_one_free = Some (b + ALIGNED_METADATA_SIZE, s')"
      "brk s' = brk heap_one_free"
      "wf_heap s' (pre @ b # (if size_blk (mem heap_one_free b) < align 10 + MIN_BLOCK_SIZE then []
                                   else [b + ALIGNED_METADATA_SIZE + align 10]) @ post)"
    by auto
  from r(1) have "pre = [] \<and> b = 4096 \<and> post = []"
    by (cases pre) auto
  with r show ?thesis
    using w f by (auto simp: a heap_one_free_def)
qed

section \<open>Releasing without effect\<close>

lemma sbrk_0 [simp]: "sbrk 0 s = (brk s, s)"
  by (simp add: sbrk_def)

lemmas coalesce_forward_induct =
  coalesce_forward.raw_induct [rotated 1, consumes 1, case_names step]

lemma coalesce_forward_free:
  "coalesce_forward b m = Some m' \<Longrightarrow> free_blk (m' x) = free_blk (m x)"
proof (induction arbitrary: x rule: coalesce_forward_induct)
  case (step cf block m res)
  show ?case
  proof (cases "next_blk (m block) \<noteq> 0 \<and> free_blk (m (next_blk (m block))) \<noteq> 0")
    case True
    with step(2) obtain m2 where "cf block m2 = Some res"
      and "\<And>y. free_blk (m2 y) = free_blk (m y)"
      by (simp add: Let_def)
    with step(1) [of block m2 res x] show ?thesis by simp
  next
    case False
    with step(2) show ?thesis by auto
  qed
qed

lemma coalesce_keeps:
  assumes "coalesce b s = Some (r, s')"
  shows "free_blk (mem s' x) = free_blk (mem s x)"
    and "heap_start s' = heap_start s" and "brk s' = brk s" and "head s' = head s"
  using assms coalesce_forward_free [of b "mem s"]
  by (auto simp: coalesce_def Let_def split: option.splits if_splits)

text \<open>
  C6. \<^verbatim>\<open>mfree\<close> returns the state it was given, with every block and every link as
  before, when the pointer is \<^verbatim>\<open>NULL\<close>, below \<open>heap_start\<close>, at or above the program
  break, not a multiple of 16, or when the header in front of it is already marked free.
  A second \<^verbatim>\<open>mfree\<close> of the same pointer, right after a first one that returned, is
  such a call: it returns the state unchanged.
\<close>

theorem mfree_noop:
  "(ptr = 0 \<or> ptr < heap_start s \<or> brk s \<le> ptr \<or> \<not> is_aligned ptr \<or>
    free_blk (mem s (ptr - ALIGNED_METADATA_SIZE)) \<noteq> 0 \<longrightarrow> mfree ptr s = Some s) \<and>
   (mfree ptr s = Some s' \<longrightarrow> mfree ptr s' = Some s')"
proof
  show "ptr = 0 \<or> ptr < heap_start s \<or> brk s \<le> ptr \<or> \<not> is_aligned ptr \<or>
    free_blk (mem s (ptr - ALIGNED_METADATA_SIZE)) \<noteq> 0 \<longrightarrow> mfree ptr s = Some s"
    by (auto simp: mfree_def Let_def)
  show "mfree ptr s = Some s' \<longrightarrow> mfree ptr s' = Some s'"
  proof
    assume a: "mfree ptr s = Some s'"
    show "mfree ptr s' = Some s'"
    proof (cases "ptr = 0 \<or> ptr < heap_start s \<or> brk s \<le> ptr \<or> \<not> is_aligned ptr \<or>
        free_blk (mem s (ptr - 32)) \<noteq> 0")
      case True
      with a have "s' = s" by (auto simp: mfree_def Let_def split: if_splits)
      with a show ?thesis by simp
    next
      case False
      define s2 where "s2 = s\<lparr>mem := (mem s)(ptr - 32 := (mem s (ptr - 32))\<lparr>free_blk := 1\<rparr>)\<rparr>"
      from a False obtain r where c: "coalesce (ptr - 32) s2 = Some (r, s')"
        by (auto simp: mfree_def Let_def s2_def split: if_splits)
      from coalesce_keeps [OF c] have "free_blk (mem s' (ptr - 32)) = 1"
        and "heap_start s' = heap_start s" and "brk s' = brk s"
        by (simp_all add: s2_def)
      then show ?thesis
        by (simp add: mfree_def Let_def)
    qed
  qed
qed

lemma mfree_heap_one_alloc: "mfree 4128 heap_one_alloc = Some heap_one_free"
  by (simp add: mfree_def heap_one_alloc_def heap_one_free_def mem0_def is_aligned_def ALIGNMENT_def
      coalesce_def coalesce_forward.simps find_prev.simps Let_def)

theorem mfree_noop_witness:
  "mfree 0 heap_one_alloc = Some heap_one_alloc \<and>
   free_blk (mem heap_one_free (4128 - ALIGNED_METADATA_SIZE)) \<noteq> 0 \<and>
   mfree 4128 heap_one_free = Some heap_one_free \<and>
   mfree 4128 heap_one_alloc = Some heap_one_free"
  using mfree_noop [of 0 heap_one_alloc] mfree_noop [of 4128 heap_one_alloc heap_one_free]
    mfree_heap_one_alloc
  by (simp add: heap_one_free_def)

section \<open>Extending the heap\<close>

lemma sbrk_cases:
  "sbrk inc s = (- 1, s) \<or> sbrk inc s = (brk s, s\<lparr>brk := brk s + inc\<rparr>)"
  by (simp add: sbrk_def Let_def)

lemma not_aligned_minus_1: "\<not> is_aligned (- 1)"
  by (simp add: is_aligned_def ALIGNMENT_def)

lemma chain_seg_snoc:
  "chain_seg m p (bs @ [b]) q \<longleftrightarrow> chain_seg m p bs b \<and> b \<noteq> 0 \<and> next_blk (m b) = q"
  by (auto simp: chain_seg_append)

lemma chain_seg_last:
  "chain_seg m p bs 0 \<Longrightarrow> bs \<noteq> [] \<Longrightarrow> chain_seg m p (butlast bs) (last bs) \<and> next_blk (m (last bs)) = 0"
  using chain_seg_snoc [of m p "butlast bs" "last bs" 0] by simp


lemma grow_first_eq:
  "grow_first asz tot s =
     (if fst (sbrk tot s) = - 1 then (0, snd (sbrk tot s))
      else (fst (sbrk tot s) + 32,
            (snd (sbrk tot s))\<lparr>mem := (mem (snd (sbrk tot s)))
               (fst (sbrk tot s) := \<lparr>size_blk = asz, free_blk = 0, next_blk = 0\<rparr>),
              head := fst (sbrk tot s)\<rparr>))"
  by (simp add: grow_first_def Let_def Block_upd_all split: prod.split)

lemma grow_last_eq:
  "grow_last asz tot lst s =
     (if fst (sbrk tot s) = - 1 then (0, snd (sbrk tot s))
      else (fst (sbrk tot s) + 32,
            (snd (sbrk tot s))\<lparr>mem :=
               (let m3 = (mem (snd (sbrk tot s)))
                           (fst (sbrk tot s) := \<lparr>size_blk = asz, free_blk = 0, next_blk = 0\<rparr>)
                in m3(lst := (m3 lst)\<lparr>next_blk := fst (sbrk tot s)\<rparr>))\<rparr>))"
  by (simp add: grow_last_def Let_def Block_upd_all split: prod.split)

lemma find_None_list_all: "list_all (\<lambda>b. \<not> P b) bs \<Longrightarrow> find P bs = None"
  by (simp add: find_None_iff list_all_iff)

lemma mallocate_no_fit:
  assumes wf: "wf_heap s bs"
    and nofit: "list_all (\<lambda>b. \<not> fits (mem s) (align n) b) bs"
  shows "\<exists>s1 r s2.
           s1 = (if heap_start s = 0 then s\<lparr>heap_start := brk s\<rparr> else s) \<and>
           sbrk (ALIGNED_METADATA_SIZE + align n) s1 = (r, s2) \<and>
           (if r = - 1 then mallocate n s = Some (0, s1) \<and> s2 = s1
            else r = brk s \<and> brk s2 = brk s + (ALIGNED_METADATA_SIZE + align n) \<and>
              (\<exists>s'. mallocate n s = Some (r + ALIGNED_METADATA_SIZE, s') \<and>
                 chain (mem s') (head s') (bs @ [r]) \<and>
                 mem s' r = \<lparr>size_blk = align n, free_blk = 0, next_blk = 0\<rparr> \<and>
                 list_all (\<lambda>b. size_blk (mem s' b) = size_blk (mem s b) \<and>
                                free_blk (mem s' b) = free_blk (mem s b)) bs \<and>
                 brk s' = brk s2 \<and> heap_start s' = heap_start s1))"
proof -
  define s1 where "s1 = (if heap_start s = 0 then s\<lparr>heap_start := brk s\<rparr> else s)"
  define tot where "tot = 32 + align n"
  have s1: "mem s1 = mem s" "head s1 = head s" "brk s1 = brk s"
    by (simp_all add: s1_def)
  have mal: "mallocate n s =
      (if head s = 0 then Some (grow_first (align n) tot s1)
       else mallocate_loop (align n) tot (head s) 0 s1)"
    by (simp add: mallocate_def Let_def s1_def tot_def)
  from wf have ch: "chain_seg (mem s) (head s) bs 0"
    and la: "laid (mem s) (unat (heap_start s)) bs (unat (brk s))"
    and ab: "is_aligned (brk s)" and b0: "brk s \<noteq> 0"
    by (simp_all add: wf_heap_def chain_def)
  have bn: "brk s \<noteq> - 1"
    using ab not_aligned_minus_1 by auto
  have notin: "brk s \<notin> set bs"
    using laid_before [OF la] by auto
  have g: "mallocate n s = Some (if bs = [] then grow_first (align n) tot s1
                                else grow_last (align n) tot (last bs) s1)"
  proof (cases "bs = []")
    case True
    with ch have "head s = 0" by simp
    with True mal show ?thesis by simp
  next
    case False
    with ch have "head s \<noteq> 0" by (cases bs) auto
    moreover have "find (fits (mem s1) (align n)) bs = None"
      using nofit by (simp add: s1 find_None_list_all)
    moreover have "chain_seg (mem s1) (head s) bs 0"
      using ch by (simp add: s1)
    ultimately show ?thesis
      using False mal mallocate_loop_chain [of s1 "head s" bs "align n" tot 0]
      by simp
  qed
  from sbrk_cases [of tot s1] show ?thesis
  proof
    assume f: "sbrk tot s1 = (- 1, s1)"
    have "mallocate n s = Some (0, s1)"
      using g f by (simp add: grow_first_eq grow_last_eq)
    with f show ?thesis
      by (intro exI [of _ s1] exI [of _ "- 1"]) (simp add: s1_def tot_def)
  next
    assume ok: "sbrk tot s1 = (brk s1, s1\<lparr>brk := brk s1 + tot\<rparr>)"
    define r where "r = brk s"
    define s2 where "s2 = s1\<lparr>brk := brk s1 + tot\<rparr>"
    define blk where "blk = \<lparr>size_blk = align n, free_blk = 0, next_blk = 0\<rparr>"
    have ok': "sbrk tot s1 = (r, s2)"
      using ok by (simp add: r_def s2_def s1)
    have r: "r \<noteq> - 1" "r \<noteq> 0" "r \<notin> set bs"
      using bn b0 notin by (simp_all add: r_def)
    have "\<exists>s'. mallocate n s = Some (r + 32, s') \<and>
                 chain (mem s') (head s') (bs @ [r]) \<and> mem s' r = blk \<and>
                 list_all (\<lambda>b. size_blk (mem s' b) = size_blk (mem s b) \<and>
                                free_blk (mem s' b) = free_blk (mem s b)) bs \<and>
                 brk s' = brk s2 \<and> heap_start s' = heap_start s1"
    proof (cases "bs = []")
      case True
      define s' where "s' = s2\<lparr>mem := (mem s2)(r := blk), head := r\<rparr>"
      have "mallocate n s = Some (r + 32, s')"
        using g True ok' r by (simp add: grow_first_eq s'_def blk_def)
      moreover have "chain (mem s') (head s') [r]"
        using r by (simp add: chain_def s'_def blk_def)
      ultimately show ?thesis
        using True by (intro exI [of _ s']) (simp add: s'_def s2_def)
    next
      case False
      define l where "l = last bs"
      define m3 where "m3 = (mem s)(r := blk)"
      define s' where "s' = s2\<lparr>mem := m3(l := (m3 l)\<lparr>next_blk := r\<rparr>)\<rparr>"
      have lin: "l \<in> set bs" using False by (simp add: l_def)
      then have lr: "l \<noteq> r" using r by auto
      from la have "distinct bs" by (rule laid_distinct)
      then have lb: "l \<notin> set (butlast bs)"
        using False unfolding l_def by (metis append_butlast_last_id distinct_append
            disjoint_iff list.set_intros(1) not_distinct_conv_prefix)
      have rb: "r \<notin> set (butlast bs)"
        using r(3) by (meson in_set_butlastD)
      from chain_seg_last [OF ch False]
      have c1: "chain_seg (mem s) (head s) (butlast bs) l" by (simp add: l_def)
      have l0: "l \<noteq> 0" using chain_seg_nonnull [OF ch] lin by auto
      have m: "mallocate n s = Some (r + 32, s')"
        using g False ok' r
        by (simp add: grow_last_eq s'_def blk_def m3_def l_def s2_def s1 Let_def)
      have "chain_seg (mem s') (head s) (butlast bs) l = chain_seg (mem s) (head s) (butlast bs) l"
        by (rule chain_seg_cong) (use lb rb in \<open>auto simp: s'_def m3_def\<close>)
      with c1 have "chain_seg (mem s') (head s) (butlast bs @ [l] @ [r]) 0"
        using l0 r lr by (simp add: chain_seg_append s'_def m3_def blk_def)
      moreover have "butlast bs @ [l] @ [r] = bs @ [r]"
        using False by (simp add: l_def)
      moreover have "head s' = head s"
        by (simp add: s'_def s2_def s1)
      ultimately have "chain (mem s') (head s') (bs @ [r])"
        by (simp only: chain_def)
      moreover have "mem s' r = blk"
        using lr by (simp add: s'_def m3_def)
      moreover have "list_all (\<lambda>b. size_blk (mem s' b) = size_blk (mem s b) \<and>
                                free_blk (mem s' b) = free_blk (mem s b)) bs"
        using r(3) by (auto simp: list_all_iff s'_def m3_def)
      ultimately show ?thesis
        using m by (intro exI [of _ s']) (simp add: s'_def s2_def)
    qed
    then show ?thesis
      using ok' r
      by (intro exI [of _ s1] exI [of _ r] exI [of _ s2])
         (simp add: s1_def tot_def r_def s2_def blk_def)
  qed
qed


section \<open>Coalescing\<close>

lemma find_prev_chain:
  "chain_seg m cur pre b \<Longrightarrow> b \<notin> set pre \<Longrightarrow> find_prev m b cur prev = Some (last (prev # pre))"
proof (induction pre arbitrary: cur prev)
  case Nil
  then show ?case by (subst find_prev.simps) simp
next
  case (Cons p ps)
  from Cons.prems have c: "cur = p" "p \<noteq> 0" "p \<noteq> b" "chain_seg m (next_blk (m p)) ps b" "b \<notin> set ps"
    by auto
  show ?case
    using c Cons.IH [OF c(4) c(5), of p]
    by (subst find_prev.simps) simp
qed

lemma chain_seg_first:
  "chain_seg m p bs 0 \<Longrightarrow> p = first_or_null bs"
  by (cases bs) (simp_all add: first_or_null_def)

lemma next_blk_same: "next_blk r = n \<Longrightarrow> r\<lparr>next_blk := n\<rparr> = r"
  for r :: Block
  by (cases r) simp

lemma coalesce_forward_chain:
  assumes "chain_seg m (next_blk (m b)) post 0" and "b \<notin> set post"
    and "\<forall>x\<in>set post. free_blk (m x) = fr x \<and> size_blk (m x) = sz x"
  shows "coalesce_forward b m =
     Some (m(b := (m b)\<lparr>size_blk := size_blk (m b) +
                sum_list (map (\<lambda>x. 32 + sz x) (takeWhile (\<lambda>x. fr x \<noteq> 0) post)),
              next_blk := first_or_null (dropWhile (\<lambda>x. fr x \<noteq> 0) post)\<rparr>))"
  using assms
proof (induction post arbitrary: m)
  case Nil
  then have "next_blk (m b) = 0" by simp
  then show ?case
    by (subst coalesce_forward.simps) (simp add: first_or_null_def next_blk_same)
next
  case (Cons p ps)
  from Cons.prems have c: "next_blk (m b) = p" "p \<noteq> 0" "chain_seg m (next_blk (m p)) ps 0"
    "p \<noteq> b" "b \<notin> set ps" "free_blk (m p) = fr p" "size_blk (m p) = sz p"
    "\<forall>x\<in>set ps. free_blk (m x) = fr x \<and> size_blk (m x) = sz x"
    by auto
  show ?case
  proof (cases "fr p = 0")
    case True
    then show ?thesis
      using c by (subst coalesce_forward.simps) (simp add: first_or_null_def next_blk_same)
  next
    case False
    define m2 where "m2 = m(b := (m b)\<lparr>size_blk := size_blk (m b) + (32 + sz p),
        next_blk := next_blk (m p)\<rparr>)"
    have step: "coalesce_forward b m = coalesce_forward b m2"
      using c False by (subst coalesce_forward.simps) (simp add: m2_def Let_def)
    have "chain_seg m2 (next_blk (m p)) ps 0 = chain_seg m (next_blk (m p)) ps 0"
      by (rule chain_seg_cong) (use c(5) in \<open>auto simp: m2_def\<close>)
    then have 1: "chain_seg m2 (next_blk (m2 b)) ps 0"
      using c(3) by (simp add: m2_def)
    have 2: "\<forall>x\<in>set ps. free_blk (m2 x) = fr x \<and> size_blk (m2 x) = sz x"
      using c(5,8) by (auto simp: m2_def)
    show ?thesis
      unfolding step Cons.IH [OF 1 c(5) 2]
      using False by (simp add: m2_def add.assoc fun_eq_iff)
  qed
qed


lemma laid_run: "laid m lo (run @ rest) hi \<Longrightarrow> laid m (lo + span m run) rest hi"
proof (induction run arbitrary: lo)
  case Nil
  then show ?case by (simp add: span_def)
next
  case (Cons x xs)
  from Cons.prems have "lo \<le> unat x"
    and "laid m (unat x + 32 + unat (size_blk (m x))) (xs @ rest) hi"
    by simp_all
  then have "laid m (lo + 32 + unat (size_blk (m x))) (xs @ rest) hi"
    by (auto intro: laid_lo)
  from Cons.IH [OF this] show ?case
    by (simp add: span_def add.assoc)
qed

lemma unat_add_32:
  "unat a + 32 + unat c < 2 ^ 64 \<Longrightarrow> unat (a + (32 + c)) = unat a + 32 + unat c"
  for a c :: "64 word"
proof -
  assume b: "unat a + 32 + unat c < 2 ^ 64"
  have "unat (a + (32 + c)) = (unat a + 32 + unat c) mod 2 ^ 64"
    by (simp add: unat_word_ariths mod_simps add.assoc)
  with b show ?thesis by simp
qed

lemma unat_absorbed:
  "unat a + span m run < 2 ^ 64 \<Longrightarrow> unat (a + absorbed m run) = unat a + span m run"
proof (induction run arbitrary: a)
  case Nil
  then show ?case by (simp add: span_def absorbed_def)
next
  case (Cons x xs)
  from Cons.prems have b: "unat a + 32 + unat (size_blk (m x)) + span m xs < 2 ^ 64"
    by (simp add: span_def)
  then have u: "unat (a + (32 + size_blk (m x))) = unat a + 32 + unat (size_blk (m x))"
    by (intro unat_add_32) simp
  with b have "unat (a + (32 + size_blk (m x))) + span m xs < 2 ^ 64"
    by simp
  from Cons.IH [OF this] u show ?case
    by (simp add: span_def absorbed_def add.assoc)
qed

lemma run_cong:
  "\<forall>x\<in>set post. free_blk (m' x) = free_blk (m x) \<Longrightarrow>
   free_run m' post = free_run m post \<and> after_run m' post = after_run m post"
  unfolding free_run_def after_run_def
  by (auto intro: takeWhile_cong dropWhile_cong)

lemma run_append: "free_run m post @ after_run m post = post"
  by (simp add: free_run_def after_run_def)

lemma after_run_subset: "set (after_run m post) \<subseteq> set post"
  unfolding after_run_def by (auto dest: set_dropWhileD)

lemma coalesce_forward_wf:
  assumes wf: "wf_heap s (pre @ b # post)"
  defines "tot \<equiv> size_blk (mem s b) + absorbed (mem s) (free_run (mem s) post)"
  defines "mf \<equiv> (mem s)(b := (mem s b)\<lparr>size_blk := tot,
                      next_blk := first_or_null (after_run (mem s) post)\<rparr>)"
  shows "coalesce_forward b (mem s) = Some mf"
    and "wf_heap (s\<lparr>mem := mf\<rparr>) (pre @ b # after_run (mem s) post)"
    and "unat tot = unat (size_blk (mem s b)) + span (mem s) (free_run (mem s) post)"
proof -
  define run where "run = free_run (mem s) post"
  define rest where "rest = after_run (mem s) post"
  define nxt where "nxt = first_or_null rest"
  note p = wf_heap_parts [OF wf]
  have post: "post = run @ rest"
    by (simp add: run_def rest_def run_append)
  have b_pre: "b \<notin> set pre" and b_post: "b \<notin> set post"
    using p(6) by simp_all
  have b_rest: "b \<notin> set rest"
    using b_post post by simp
  from p(3) obtain r where "chain_seg (mem s) (next_blk (mem s b)) run r"
    and r: "chain_seg (mem s) r rest 0"
    unfolding post chain_seg_append by blast
  from r have "r = nxt"
    unfolding nxt_def by (rule chain_seg_first)
  with r have cr: "chain_seg (mem s) nxt rest 0" by simp
  from p(5) have lr: "laid (mem s) (unat b + 32 + unat (size_blk (mem s b)) + span (mem s) run) rest
      (unat (brk s))"
    unfolding post by (rule laid_run)
  from laid_le [OF lr] have bound: "unat b + 32 + unat (size_blk (mem s b)) + span (mem s) run < 2 ^ 64"
    using unat_lt64 [of "brk s"] by simp
  then have "unat (size_blk (mem s b)) + span (mem s) run < 2 ^ 64"
    by simp
  then have ut: "unat tot = unat (size_blk (mem s b)) + span (mem s) run"
    unfolding tot_def run_def [symmetric] by (rule unat_absorbed)
  then show "unat tot = unat (size_blk (mem s b)) + span (mem s) (free_run (mem s) post)"
    by (simp add: run_def)
  have "coalesce_forward b (mem s) =
     Some ((mem s)(b := (mem s b)\<lparr>size_blk := size_blk (mem s b) +
                sum_list (map (\<lambda>x. 32 + size_blk (mem s x))
                  (takeWhile (\<lambda>x. free_blk (mem s x) \<noteq> 0) post)),
              next_blk := first_or_null (dropWhile (\<lambda>x. free_blk (mem s x) \<noteq> 0) post)\<rparr>))"
    using p(3) b_post by (rule coalesce_forward_chain) simp
  then show "coalesce_forward b (mem s) = Some mf"
    by (simp add: mf_def tot_def absorbed_def free_run_def after_run_def)
  have mfb: "size_blk (mf b) = tot" "next_blk (mf b) = nxt"
    by (simp_all add: mf_def nxt_def rest_def)
  have c1: "chain_seg mf (head s) pre b = chain_seg (mem s) (head s) pre b"
    by (rule chain_seg_cong) (use b_pre in \<open>auto simp: mf_def\<close>)
  have c2: "chain_seg mf nxt rest 0 = chain_seg (mem s) nxt rest 0"
    by (rule chain_seg_cong) (use b_rest in \<open>auto simp: mf_def\<close>)
  have ch: "chain_seg mf (head s) (pre @ b # rest) 0"
    unfolding chain_seg_append using c1 c2 p(1,2) cr mfb by auto
  have l1: "laid mf (unat (heap_start s)) pre (unat b) = laid (mem s) (unat (heap_start s)) pre (unat b)"
    by (rule laid_cong) (use b_pre in \<open>auto simp: mf_def\<close>)
  have l2: "laid mf (unat b + 32 + unat tot) rest (unat (brk s))
      = laid (mem s) (unat b + 32 + unat tot) rest (unat (brk s))"
    by (rule laid_cong) (use b_rest in \<open>auto simp: mf_def\<close>)
  have "laid mf (unat b + 32 + unat (size_blk (mf b))) rest (unat (brk s))"
    using l2 lr by (simp add: mfb ut add.assoc)
  then have "laid mf (unat b) (b # rest) (unat (brk s))"
    by simp
  moreover have "laid mf (unat (heap_start s)) pre (unat b)"
    using l1 p(4) by simp
  ultimately have la: "laid mf (unat (heap_start s)) (pre @ b # rest) (unat (brk s))"
    unfolding laid_append by simp
  have "set rest \<subseteq> set post"
    unfolding rest_def by (rule after_run_subset)
  then have al: "list_all is_aligned (pre @ b # rest)"
    using wf by (auto simp: wf_heap_def list_all_iff)
  show "wf_heap (s\<lparr>mem := mf\<rparr>) (pre @ b # after_run (mem s) post)"
    using wf ch la al by (simp add: wf_heap_def chain_def rest_def)
qed

lemma merge_next_wf:
  assumes wf: "wf_heap s (pre @ a # c # rest)"
  shows "wf_heap (s\<lparr>mem := (mem s)(a := (mem s a)\<lparr>size_blk :=
             size_blk (mem s a) + (32 + size_blk (mem s c)),
           next_blk := next_blk (mem s c)\<rparr>)\<rparr>) (pre @ a # rest)"
    and "unat (size_blk (mem s a) + (32 + size_blk (mem s c)))
       = unat (size_blk (mem s a)) + 32 + unat (size_blk (mem s c))"
proof -
  define m' where "m' = (mem s)(a := (mem s a)\<lparr>size_blk :=
             size_blk (mem s a) + (32 + size_blk (mem s c)),
           next_blk := next_blk (mem s c)\<rparr>)"
  note p = wf_heap_parts [OF wf]
  from wf have wf2: "wf_heap s ((pre @ [a]) @ c # rest)" by simp
  note q = wf_heap_parts [OF wf2]
  have a_pre: "a \<notin> set pre" and a_rest: "a \<notin> set rest"
    using p(6) by simp_all
  from p(5) have ac: "unat a + 32 + unat (size_blk (mem s a)) \<le> unat c"
    by simp
  have "unat (size_blk (mem s a)) + 32 + unat (size_blk (mem s c)) < 2 ^ 64"
    using ac q(9) unat_lt64 [of "brk s"] by simp
  then show u: "unat (size_blk (mem s a) + (32 + size_blk (mem s c)))
       = unat (size_blk (mem s a)) + 32 + unat (size_blk (mem s c))"
    by (rule unat_add_32)
  have c1: "chain_seg m' (head s) pre a = chain_seg (mem s) (head s) pre a"
    by (rule chain_seg_cong) (use a_pre in \<open>auto simp: m'_def\<close>)
  have c2: "chain_seg m' (next_blk (mem s c)) rest 0 = chain_seg (mem s) (next_blk (mem s c)) rest 0"
    by (rule chain_seg_cong) (use a_rest in \<open>auto simp: m'_def\<close>)
  have ch: "chain_seg m' (head s) (pre @ a # rest) 0"
    unfolding chain_seg_append using c1 c2 p(1,2) q(3) by (auto simp: m'_def)
  have l1: "laid m' (unat (heap_start s)) pre (unat a) = laid (mem s) (unat (heap_start s)) pre (unat a)"
    by (rule laid_cong) (use a_pre in \<open>auto simp: m'_def\<close>)
  have l2: "laid m' (unat c + 32 + unat (size_blk (mem s c))) rest (unat (brk s))
      = laid (mem s) (unat c + 32 + unat (size_blk (mem s c))) rest (unat (brk s))"
    by (rule laid_cong) (use a_rest in \<open>auto simp: m'_def\<close>)
  have "laid m' (unat c + 32 + unat (size_blk (mem s c))) rest (unat (brk s))"
    using l2 q(5) by simp
  then have "laid m' (unat a + 32 + unat (size_blk (m' a))) rest (unat (brk s))"
    using ac u by (auto intro: laid_lo simp: m'_def)
  then have "laid m' (unat a) (a # rest) (unat (brk s))"
    by simp
  moreover have "laid m' (unat (heap_start s)) pre (unat a)"
    using l1 p(4) by simp
  ultimately have la: "laid m' (unat (heap_start s)) (pre @ a # rest) (unat (brk s))"
    unfolding laid_append by simp
  show "wf_heap (s\<lparr>mem := (mem s)(a := (mem s a)\<lparr>size_blk :=
             size_blk (mem s a) + (32 + size_blk (mem s c)),
           next_blk := next_blk (mem s c)\<rparr>)\<rparr>) (pre @ a # rest)"
    using wf ch la by (simp add: wf_heap_def chain_def m'_def)
qed

lemma wf_heap_mem_cong:
  "\<forall>x\<in>set bs. next_blk (m' x) = next_blk (mem s x) \<and> size_blk (m' x) = size_blk (mem s x) \<Longrightarrow>
   wf_heap (s\<lparr>mem := m'\<rparr>) bs = wf_heap s bs"
  using chain_seg_cong [of bs m' "mem s" "head s" 0]
    laid_cong [of bs m' "mem s" "unat (heap_start s)" "unat (brk s)"]
  by (simp add: wf_heap_def chain_def)

lemma absorbed_cong:
  "\<forall>x\<in>set run. size_blk (m' x) = size_blk (m x) \<Longrightarrow> absorbed m' run = absorbed m run"
  unfolding absorbed_def by (auto intro: arg_cong [where f = sum_list] map_cong)

lemma free_run_subset: "set (free_run m post) \<subseteq> set post"
  unfolding free_run_def by (auto dest: set_takeWhileD)

lemma coalesce_wf:
  assumes wf: "wf_heap s (pre @ b # post)"
  defines "tot \<equiv> size_blk (mem s b) + absorbed (mem s) (free_run (mem s) post)"
  defines "rest \<equiv> after_run (mem s) post"
  defines "mf \<equiv> (mem s)(b := (mem s b)\<lparr>size_blk := tot, next_blk := first_or_null rest\<rparr>)"
  defines "mrg \<equiv> pre \<noteq> [] \<and> free_blk (mem s (last pre)) \<noteq> 0"
  defines "mb \<equiv> mf(last pre := (mem s (last pre))\<lparr>size_blk :=
                     size_blk (mem s (last pre)) + (32 + tot), next_blk := first_or_null rest\<rparr>)"
  shows "coalesce b s = Some (if mrg then (last pre, s\<lparr>mem := mb\<rparr>) else (b, s\<lparr>mem := mf\<rparr>))"
    and "wf_heap (s\<lparr>mem := if mrg then mb else mf\<rparr>)
           (if mrg then butlast pre @ last pre # rest else pre @ b # rest)"
proof -
  note p = wf_heap_parts [OF wf]
  have b_pre: "b \<notin> set pre" using p(6) by simp
  have fw: "coalesce_forward b (mem s) = Some mf"
    and wff: "wf_heap (s\<lparr>mem := mf\<rparr>) (pre @ b # rest)"
    using coalesce_forward_wf [OF wf] by (simp_all add: mf_def tot_def rest_def)
  have "chain_seg mf (head s) pre b = chain_seg (mem s) (head s) pre b"
    by (rule chain_seg_cong) (use b_pre in \<open>auto simp: mf_def\<close>)
  with p(1) have "chain_seg mf (head s) pre b" by simp
  then have fp: "find_prev mf b (head s) 0 = Some (last (0 # pre))"
    using b_pre by (rule find_prev_chain)
  show "coalesce b s = Some (if mrg then (last pre, s\<lparr>mem := mb\<rparr>) else (b, s\<lparr>mem := mf\<rparr>))"
  proof (cases "pre = []")
    case True
    then show ?thesis
      using fw fp by (simp add: coalesce_def mrg_def)
  next
    case False
    then have lp: "last pre \<in> set pre" by simp
    then have ne: "last pre \<noteq> b" using b_pre by auto
    have l0: "last pre \<noteq> 0"
      using chain_seg_nonnull [OF p(1)] lp by auto
    have mfl: "mf (last pre) = mem s (last pre)"
      using ne by (simp add: mf_def)
    have mfb: "size_blk (mf b) = tot" "next_blk (mf b) = first_or_null rest"
      by (simp_all add: mf_def)
    show ?thesis
      using False fw fp l0 ne mfl mfb
      by (simp add: coalesce_def mrg_def mb_def Let_def)
  qed
  show "wf_heap (s\<lparr>mem := if mrg then mb else mf\<rparr>)
           (if mrg then butlast pre @ last pre # rest else pre @ b # rest)"
  proof (cases mrg)
    case False
    with wff show ?thesis by simp
  next
    case True
    then have ne: "pre \<noteq> []" by (simp add: mrg_def)
    then have "last pre \<in> set pre" by simp
    then have neb: "last pre \<noteq> b" using b_pre by auto
    from ne have "pre = butlast pre @ [last pre]" by simp
    then have "pre @ b # rest = butlast pre @ last pre # b # rest"
      by (metis append.assoc append_Cons append_Nil)
    with wff have "wf_heap (s\<lparr>mem := mf\<rparr>) (butlast pre @ last pre # b # rest)"
      by simp
    from merge_next_wf(1) [OF this]
    have "wf_heap (s\<lparr>mem := mf(last pre := (mf (last pre))\<lparr>size_blk :=
             size_blk (mf (last pre)) + (32 + size_blk (mf b)),
           next_blk := next_blk (mf b)\<rparr>)\<rparr>) (butlast pre @ last pre # rest)"
      by simp
    moreover have "mf (last pre) = mem s (last pre)"
      using neb by (simp add: mf_def)
    moreover have "size_blk (mf b) = tot" "next_blk (mf b) = first_or_null rest"
      by (simp_all add: mf_def)
    ultimately show ?thesis
      using True by (simp add: mb_def)
  qed
qed

lemma is_aligned_32: "is_aligned 32"
  by (simp add: is_aligned_def ALIGNMENT_def)

lemma mfree_valid:
  assumes wf: "wf_heap s (pre @ b # post)"
    and fr: "free_blk (mem s b) = 0"
    and rng: "b + 32 < brk s"
  shows "mfree (b + 32) s =
     map_option snd (coalesce b (s\<lparr>mem := (mem s)(b := (mem s b)\<lparr>free_blk := 1\<rparr>)\<rparr>))"
proof -
  note p = wf_heap_parts [OF wf]
  have "unat (b + 32) = (unat b + 32) mod 2 ^ 64"
    by (simp add: unat_word_ariths)
  also have "\<dots> = unat b + 32"
    using p(9) unat_lt64 [of "brk s"] by simp
  finally have u: "unat (b + 32) = unat b + 32" .
  then have n0: "b + 32 \<noteq> 0"
    by (auto simp: unat_eq_zero [symmetric] simp del: unat_eq_zero)
  have lo: "\<not> b + 32 < heap_start s"
    using u p(10) by (simp add: word_less_nat_alt)
  have hi: "\<not> brk s \<le> b + 32"
    using rng by simp
  have al: "is_aligned (b + 32)"
    using p(8) is_aligned_32 by (rule is_aligned_add)
  show ?thesis
    using n0 lo hi al fr by (simp add: mfree_def Let_def)
qed

lemma naf_cong:
  "\<forall>x\<in>set bs. free_blk (m' x) = free_blk (m x) \<Longrightarrow> no_adj_free m' bs = no_adj_free m bs"
  by (induction m bs rule: no_adj_free.induct) auto

lemma naf_Cons:
  "no_adj_free m (x # bs) \<longleftrightarrow>
     (bs = [] \<or> free_blk (m x) = 0 \<or> free_blk (m (hd bs)) = 0) \<and> no_adj_free m bs"
  by (cases bs) auto

lemma naf_append:
  "no_adj_free m (as @ x # bs) \<longleftrightarrow> no_adj_free m (as @ [x]) \<and> no_adj_free m (x # bs)"
proof (induction as)
  case Nil
  then show ?case by simp
next
  case (Cons a as)
  then show ?case by (cases as) auto
qed

lemma naf_snoc:
  "no_adj_free m (as @ [x]) \<longleftrightarrow>
     (as = [] \<or> free_blk (m (last as)) = 0 \<or> free_blk (m x) = 0) \<and> no_adj_free m as"
proof (induction as)
  case Nil
  then show ?case by simp
next
  case (Cons a as)
  then show ?case by (cases as) auto
qed

lemma naf_suffix: "no_adj_free m (as @ bs) \<Longrightarrow> no_adj_free m bs"
proof (induction as)
  case Nil
  then show ?case by simp
next
  case (Cons a as)
  then show ?case by (cases "as @ bs") auto
qed

lemma after_run_hd:
  "after_run m post = [] \<or> free_blk (m (hd (after_run m post))) = 0"
  unfolding after_run_def
  by (metis (mono_tags, lifting) hd_dropWhile)

lemma naf_after_run: "no_adj_free m post \<Longrightarrow> no_adj_free m (after_run m post)"
  using naf_suffix [of m "free_run m post" "after_run m post"] by (simp add: run_append)

lemma Block_eqI:
  "size_blk r = a \<Longrightarrow> free_blk r = f \<Longrightarrow> next_blk r = n \<Longrightarrow>
   r = \<lparr>size_blk = a, free_blk = f, next_blk = n\<rparr>"
  for r :: Block
  by (cases r) simp

lemma mfree_chain:
  assumes wf: "wf_heap s (pre @ b # post)"
    and fr: "free_blk (mem s b) = 0"
    and rng: "b + 32 < brk s"
  defines "tot \<equiv> size_blk (mem s b) + absorbed (mem s) (free_run (mem s) post)"
  defines "rest \<equiv> after_run (mem s) post"
  defines "mf \<equiv> (mem s)(b := \<lparr>size_blk = tot, free_blk = 1, next_blk = first_or_null rest\<rparr>)"
  defines "mrg \<equiv> pre \<noteq> [] \<and> free_blk (mem s (last pre)) \<noteq> 0"
  defines "mb \<equiv> mf(last pre := (mem s (last pre))\<lparr>size_blk :=
                     size_blk (mem s (last pre)) + (32 + tot), next_blk := first_or_null rest\<rparr>)"
  shows "coalesce b (s\<lparr>mem := (mem s)(b := (mem s b)\<lparr>free_blk := 1\<rparr>)\<rparr>) =
           Some (if mrg then (last pre, s\<lparr>mem := mb\<rparr>) else (b, s\<lparr>mem := mf\<rparr>))"
    and "mfree (b + 32) s = Some (s\<lparr>mem := if mrg then mb else mf\<rparr>)"
    and "wf_heap (s\<lparr>mem := if mrg then mb else mf\<rparr>)
           (if mrg then butlast pre @ last pre # rest else pre @ b # rest)"
    and "no_adj_free (mem s) (pre @ b # post) \<Longrightarrow>
         no_adj_free (if mrg then mb else mf)
           (if mrg then butlast pre @ last pre # rest else pre @ b # rest)"
proof -
  define m2 where "m2 = (mem s)(b := (mem s b)\<lparr>free_blk := 1\<rparr>)"
  define s2 where "s2 = s\<lparr>mem := m2\<rparr>"
  note p = wf_heap_parts [OF wf]
  have b_pre: "b \<notin> set pre" and b_post: "b \<notin> set post"
    using p(6) by simp_all
  have wf2: "wf_heap s2 (pre @ b # post)"
    unfolding s2_def using wf
    by (subst wf_heap_mem_cong) (auto simp: m2_def)
  have ms2: "mem s2 = m2" by (simp add: s2_def)
  have run: "free_run (mem s2) post = free_run (mem s) post" "after_run (mem s2) post = rest"
    using run_cong [of post m2 "mem s"] b_post by (auto simp: m2_def ms2 rest_def)
  have "absorbed m2 (free_run (mem s) post) = absorbed (mem s) (free_run (mem s) post)"
    by (rule absorbed_cong) (use b_post free_run_subset [of "mem s" post] in \<open>auto simp: m2_def\<close>)
  moreover have "size_blk (m2 b) = size_blk (mem s b)"
    by (simp add: m2_def)
  ultimately have tot2: "size_blk (mem s2 b) + absorbed (mem s2) (free_run (mem s) post) = tot"
    by (simp add: ms2 tot_def)
  have e: "(mem s b)\<lparr>free_blk := 1, size_blk := tot, next_blk := first_or_null rest\<rparr>
      = \<lparr>size_blk = tot, free_blk = 1, next_blk = first_or_null rest\<rparr>"
    by (rule Block_eqI) simp_all
  have mf2: "(mem s2)(b := (mem s2 b)\<lparr>size_blk := tot, next_blk := first_or_null rest\<rparr>) = mf"
    by (simp add: s2_def m2_def mf_def e)
  have lp: "mem s2 (last pre) = mem s (last pre)" if "pre \<noteq> []"
  proof -
    from that have "last pre \<in> set pre" by simp
    with b_pre have "last pre \<noteq> b" by auto
    then show ?thesis by (simp add: s2_def m2_def)
  qed
  have mrg2: "(pre \<noteq> [] \<and> free_blk (mem s2 (last pre)) \<noteq> 0) = mrg"
    using lp by (auto simp: mrg_def)
  have mb2: "mf(last pre := (mem s2 (last pre))\<lparr>size_blk :=
       size_blk (mem s2 (last pre)) + (32 + tot), next_blk := first_or_null rest\<rparr>) = mb" if mrg
    using that lp by (simp add: mrg_def mb_def)
  have upd: "\<And>x. s2\<lparr>mem := x\<rparr> = s\<lparr>mem := x\<rparr>"
    by (simp add: s2_def)
  have c2: "coalesce b s2 = Some (if mrg then (last pre, s\<lparr>mem := mb\<rparr>) else (b, s\<lparr>mem := mf\<rparr>))"
  proof (cases mrg)
    case True
    from coalesce_wf(1) [OF wf2] show ?thesis
      by (simp only: tot2 run mf2 mrg2 upd mb2 [OF True])
  next
    case False
    from coalesce_wf(1) [OF wf2] show ?thesis
      by (simp only: tot2 run mf2 mrg2 upd False if_False)
  qed
  then show c: "coalesce b (s\<lparr>mem := (mem s)(b := (mem s b)\<lparr>free_blk := 1\<rparr>)\<rparr>) =
           Some (if mrg then (last pre, s\<lparr>mem := mb\<rparr>) else (b, s\<lparr>mem := mf\<rparr>))"
    by (simp only: s2_def m2_def)
  show "mfree (b + 32) s = Some (s\<lparr>mem := if mrg then mb else mf\<rparr>)"
    unfolding mfree_valid [OF wf fr rng] c by simp
  show "wf_heap (s\<lparr>mem := if mrg then mb else mf\<rparr>)
           (if mrg then butlast pre @ last pre # rest else pre @ b # rest)"
  proof (cases mrg)
    case True
    from coalesce_wf(2) [OF wf2] show ?thesis
      by (simp only: tot2 run mf2 mrg2 upd mb2 [OF True])
  next
    case False
    from coalesce_wf(2) [OF wf2] show ?thesis
      by (simp only: tot2 run mf2 mrg2 upd False if_False)
  qed
  show "no_adj_free (if mrg then mb else mf)
           (if mrg then butlast pre @ last pre # rest else pre @ b # rest)"
    if naf: "no_adj_free (mem s) (pre @ b # post)"
  proof -
    from naf have n_pre: "no_adj_free (mem s) (pre @ [b])" and "no_adj_free (mem s) (b # post)"
      using naf_append [of "mem s" pre b post] by simp_all
    then have "no_adj_free (mem s) post"
      by (simp add: naf_Cons)
    then have n_rest: "no_adj_free (mem s) rest"
      unfolding rest_def by (rule naf_after_run)
    have b_rest: "b \<notin> set rest"
      using b_post after_run_subset [of "mem s" post] by (auto simp: rest_def)
    have hd_rest: "rest = [] \<or> free_blk (mem s (hd rest)) = 0"
      unfolding rest_def by (rule after_run_hd)
    from n_pre have n_pre': "no_adj_free (mem s) pre"
      by (simp add: naf_snoc)
    show ?thesis
    proof (cases mrg)
      case False
      have 1: "no_adj_free mf (pre @ [b])"
      proof -
        have "no_adj_free mf pre = no_adj_free (mem s) pre"
          by (rule naf_cong) (use b_pre in \<open>auto simp: mf_def\<close>)
        moreover have "pre \<noteq> [] \<Longrightarrow> free_blk (mf (last pre)) = 0"
          using False b_pre by (auto simp: mrg_def mf_def)
        ultimately show ?thesis
          using n_pre' by (auto simp: naf_snoc)
      qed
      have 2: "no_adj_free mf (b # rest)"
      proof -
        have "no_adj_free mf rest = no_adj_free (mem s) rest"
          by (rule naf_cong) (use b_rest in \<open>auto simp: mf_def\<close>)
        moreover have "rest \<noteq> [] \<Longrightarrow> free_blk (mf (hd rest)) = 0"
          using hd_rest b_rest by (cases rest) (auto simp: mf_def)
        ultimately show ?thesis
          using n_rest by (auto simp: naf_Cons)
      qed
      from 1 2 False show ?thesis
        by (simp add: naf_append [of mf pre b rest])
    next
      case True
      define q where "q = last pre"
      define pre' where "pre' = butlast pre"
      from True have pre: "pre = pre' @ [q]"
        by (simp add: mrg_def q_def pre'_def)
      have q_b: "q \<noteq> b" using b_pre pre by auto
      from wf have "distinct (pre @ b # post)"
        using p(6) by simp
      then have q_pre': "q \<notin> set pre'" and q_rest: "q \<notin> set rest"
        using pre after_run_subset [of "mem s" post] by (auto simp: rest_def)
      have b_pre': "b \<notin> set pre'" using b_pre pre by simp
      have fq: "free_blk (mb q) = free_blk (mem s q)"
        by (simp add: mb_def q_def)
      have 1: "no_adj_free mb (pre' @ [q])"
      proof -
        have "no_adj_free mb (pre' @ [q]) = no_adj_free (mem s) (pre' @ [q])"
          by (rule naf_cong) (use b_pre' q_b in \<open>auto simp: mb_def mf_def q_def\<close>)
        with n_pre' pre show ?thesis by simp
      qed
      have 2: "no_adj_free mb (q # rest)"
      proof -
        have "no_adj_free mb rest = no_adj_free (mem s) rest"
          by (rule naf_cong) (use b_rest q_rest in \<open>auto simp: mb_def mf_def q_def\<close>)
        moreover have "rest \<noteq> [] \<Longrightarrow> free_blk (mb (hd rest)) = 0"
          using hd_rest b_rest q_rest by (cases rest) (auto simp: mb_def mf_def q_def)
        ultimately show ?thesis
          using n_rest by (auto simp: naf_Cons)
      qed
      from 1 2 have "no_adj_free mb (pre' @ q # rest)"
        by (simp add: naf_append [of mb pre' q rest])
      with True show ?thesis
        by (simp add: q_def pre'_def)
    qed
  qed
qed

section \<open>What mfree and coalesce do to a block of the chain\<close>

text \<open>
  C4. Releasing the usable region of an allocated block of a well-formed heap; the pointer
  lies below the break, which the range check of \<^verbatim>\<open>mfree\<close> asks for (it does unless the
  block is the last one and has size 0). \<^verbatim>\<open>mfree\<close> marks the block free and calls
  \<^verbatim>\<open>coalesce\<close>. The first loop adds to the block's size the header size plus the size of
  every free block that follows it directly, however many there are (\<open>free_run\<close>, the
  longest run of free blocks at the start of what follows the block), and links the block
  to what comes after them (\<open>after_run\<close>): the end of the chain, or a block that is not
  free. Then, when the block before is free, that block takes the header size plus the
  block's new size and the block's successor, and \<^verbatim>\<open>coalesce\<close> returns it; otherwise
  \<^verbatim>\<open>coalesce\<close> returns the block itself. The block returned is free, it stands in the
  chain in place of all the blocks merged, and the heap is well formed again. Of the
  blocks before, only the one directly before is looked at: when no two neighbours were
  free before the call, none are after it, and the free blocks around the released one
  have become one free block.
\<close>

theorem mfree_coalesces:
  assumes wf: "wf_heap s (pre @ b # post)"
    and alloc: "free_blk (mem s b) = 0"
    and rng: "b + ALIGNED_METADATA_SIZE < brk s"
  shows "\<exists>surv s'.
     coalesce b (s\<lparr>mem := (mem s)(b := (mem s b)\<lparr>free_blk := 1\<rparr>)\<rparr>) = Some (surv, s') \<and>
     mfree (b + ALIGNED_METADATA_SIZE) s = Some s' \<and>
     surv = (if pre \<noteq> [] \<and> free_blk (mem s (last pre)) \<noteq> 0 then last pre else b) \<and>
     size_blk (mem s' b) = size_blk (mem s b) + absorbed (mem s) (free_run (mem s) post) \<and>
     size_blk (mem s' surv) =
       (if surv = b then size_blk (mem s' b)
        else size_blk (mem s surv) + (ALIGNED_METADATA_SIZE + size_blk (mem s' b))) \<and>
     free_blk (mem s' surv) \<noteq> 0 \<and>
     next_blk (mem s' surv) = first_or_null (after_run (mem s) post) \<and>
     list_all (\<lambda>x. free_blk (mem s' x) = 0) (take 1 (after_run (mem s) post)) \<and>
     wf_heap s' ((if surv = b then pre else butlast pre) @ surv # after_run (mem s) post) \<and>
     (no_adj_free (mem s) (pre @ b # post) \<longrightarrow>
      no_adj_free (mem s') ((if surv = b then pre else butlast pre) @ surv # after_run (mem s) post))"
proof -
  define tot where "tot = size_blk (mem s b) + absorbed (mem s) (free_run (mem s) post)"
  define rest where "rest = after_run (mem s) post"
  define mf where "mf = (mem s)(b := \<lparr>size_blk = tot, free_blk = 1, next_blk = first_or_null rest\<rparr>)"
  define mrg where "mrg \<longleftrightarrow> pre \<noteq> [] \<and> free_blk (mem s (last pre)) \<noteq> 0"
  define mb where "mb = mf(last pre := (mem s (last pre))\<lparr>size_blk :=
                     size_blk (mem s (last pre)) + (32 + tot), next_blk := first_or_null rest\<rparr>)"
  from rng have rng': "b + 32 < brk s" by simp
  note r = mfree_chain [OF wf alloc rng', folded tot_def rest_def, folded mf_def mrg_def,
      folded mb_def]
  from wf have d: "distinct (pre @ b # post)"
    by (rule wf_heap_parts)
  then have b_pre: "b \<notin> set pre" by simp
  have sub: "set (take 1 rest) \<subseteq> set post"
    using after_run_subset [of "mem s" post] set_take_subset [of 1 rest]
    by (auto simp: rest_def)
  have nf: "list_all (\<lambda>x. free_blk (mem s x) = 0) (take 1 rest)"
    using after_run_hd [of "mem s" post] by (cases rest) (auto simp: rest_def)
  have nf_mf: "list_all (\<lambda>x. free_blk (mf x) = 0) (take 1 rest)"
    using nf sub d by (auto simp: list_all_iff mf_def)
  show ?thesis
  proof (cases mrg)
    case True
    then have lp: "last pre \<in> set pre" by (simp add: mrg_def)
    with b_pre have ne: "last pre \<noteq> b" by auto
    have "free_blk (mb (last pre)) \<noteq> 0"
      using True by (simp add: mb_def mrg_def)
    moreover have "list_all (\<lambda>x. free_blk (mb x) = 0) (take 1 rest)"
      using nf_mf sub d lp by (auto simp: list_all_iff mb_def)
    ultimately show ?thesis
      using True r ne
      by (intro exI [of _ "last pre"] exI [of _ "s\<lparr>mem := mb\<rparr>"])
         (simp add: mrg_def [symmetric] rest_def [symmetric] tot_def [symmetric], simp add: mb_def mf_def)
  next
    case False
    then show ?thesis
      using r nf_mf
      by (intro exI [of _ b] exI [of _ "s\<lparr>mem := mf\<rparr>"])
         (simp add: mrg_def [symmetric] rest_def [symmetric] tot_def [symmetric], simp add: mf_def)
  qed
qed

lemma wf_heap_three: "wf_heap heap_three [4096, 4192, 4256]"
  by (simp add: wf_heap_def chain_def heap_three_def mem0_def is_aligned_def ALIGNMENT_def)

lemma wf_heap_runs: "wf_heap heap_runs [4096, 4192, 4240, 4288, 4336]"
  by (simp add: wf_heap_def chain_def heap_runs_def mem0_def is_aligned_def ALIGNMENT_def)

lemma wf_heap_b_free: "wf_heap heap_b_free [4096, 4192, 4256]"
  by (simp add: wf_heap_def chain_def heap_b_free_def mem0_def is_aligned_def ALIGNMENT_def)

text \<open>In \<open>heap_runs\<close> the released block of 16 bytes is followed by two free blocks of 16
  bytes and comes after a free block of 64 bytes: the loop absorbs both (16 + 48 + 48 =
  112 bytes), stops at the allocated block behind them, and the block before takes the
  result (64 + 32 + 112 = 208 bytes). In \<open>heap_b_free\<close> no two neighbours are free, and
  none are after the release of the last block.\<close>

theorem mfree_coalesces_witness:
  "wf_heap heap_runs ([4096] @ 4192 # [4240, 4288, 4336]) \<and>
   free_blk (mem heap_runs 4192) = 0 \<and>
   4192 + ALIGNED_METADATA_SIZE < brk heap_runs \<and>
   free_run (mem heap_runs) [4240, 4288, 4336] = [4240, 4288] \<and>
   after_run (mem heap_runs) [4240, 4288, 4336] = [4336] \<and>
   \<not> no_adj_free (mem heap_runs) ([4096] @ 4192 # [4240, 4288, 4336]) \<and>
   (\<exists>s'. mfree 4224 heap_runs = Some s' \<and>
         size_blk (mem s' 4192) = 112 \<and> size_blk (mem s' 4096) = 208 \<and>
         free_blk (mem s' 4096) \<noteq> 0 \<and> next_blk (mem s' 4096) = 4336 \<and>
         free_blk (mem s' 4336) = 0 \<and> wf_heap s' [4096, 4336]) \<and>
   wf_heap heap_b_free ([4096, 4192] @ 4256 # []) \<and>
   free_blk (mem heap_b_free 4256) = 0 \<and>
   4256 + ALIGNED_METADATA_SIZE < brk heap_b_free \<and>
   no_adj_free (mem heap_b_free) ([4096, 4192] @ 4256 # []) \<and>
   (\<exists>s'. mfree 4288 heap_b_free = Some s' \<and> size_blk (mem s' 4192) = 112 \<and>
         wf_heap s' [4096, 4192] \<and> no_adj_free (mem s') [4096, 4192])"
proof -
  have w: "wf_heap heap_runs ([4096] @ 4192 # [4240, 4288, 4336])"
    using wf_heap_runs by simp
  have a: "free_blk (mem heap_runs 4192) = 0"
    by (simp add: heap_runs_def)
  have r: "4192 + ALIGNED_METADATA_SIZE < brk heap_runs"
    by (simp add: heap_runs_def)
  have f: "free_run (mem heap_runs) [4240, 4288, 4336] = [4240, 4288]"
      "after_run (mem heap_runs) [4240, 4288, 4336] = [4336]"
    by (simp_all add: free_run_def after_run_def heap_runs_def)
  have ab: "absorbed (mem heap_runs) [4240, 4288] = 96"
    by (simp add: absorbed_def heap_runs_def)
  have n: "\<not> no_adj_free (mem heap_runs) ([4096] @ 4192 # [4240, 4288, 4336])"
    by (simp add: heap_runs_def)
  from mfree_coalesces [OF w a r, unfolded f ab]
  have 1: "\<exists>s'. mfree 4224 heap_runs = Some s' \<and>
         size_blk (mem s' 4192) = 112 \<and> size_blk (mem s' 4096) = 208 \<and>
         free_blk (mem s' 4096) \<noteq> 0 \<and> next_blk (mem s' 4096) = 4336 \<and>
         free_blk (mem s' 4336) = 0 \<and> wf_heap s' [4096, 4336]"
    by (auto simp: heap_runs_def first_or_null_def)
  have w2: "wf_heap heap_b_free ([4096, 4192] @ 4256 # [])"
    using wf_heap_b_free by simp
  have a2: "free_blk (mem heap_b_free 4256) = 0"
    by (simp add: heap_b_free_def)
  have r2: "4256 + ALIGNED_METADATA_SIZE < brk heap_b_free"
    by (simp add: heap_b_free_def)
  have n2: "no_adj_free (mem heap_b_free) ([4096, 4192] @ 4256 # [])"
    by (simp add: heap_b_free_def)
  have f2: "free_run (mem heap_b_free) [] = []" "after_run (mem heap_b_free) [] = []"
    by (simp_all add: free_run_def after_run_def)
  have ab2: "absorbed (mem heap_b_free) [] = 0"
    by (simp add: absorbed_def)
  from mfree_coalesces [OF w2 a2 r2, unfolded f2 ab2] n2
  have 2: "\<exists>s'. mfree 4288 heap_b_free = Some s' \<and> size_blk (mem s' 4192) = 112 \<and>
         wf_heap s' [4096, 4192] \<and> no_adj_free (mem s') [4096, 4192]"
    by (auto simp: heap_b_free_def)
  from w a r f n 1 w2 a2 r2 n2 2 show ?thesis
    by (simp only: simp_thms)
qed


lemma sint_small:
  assumes "unat (w :: 64 word) < 2 ^ 63"
  shows "sint w = uint w"
proof -
  have l: "LENGTH(64) - Suc 0 = 63" by simp
  have "int (unat w) < int (2 ^ 63)"
    using assms by (simp only: of_nat_less_iff)
  then have u: "uint w < 2 ^ 63"
    by (simp only: uint_nat of_nat_power of_nat_numeral)
  have "(0 :: int) \<le> uint w" by (rule uint_ge_0)
  moreover have "- (2 ^ 63) \<le> (0 :: int)" by simp
  ultimately have g: "- (2 ^ 63) \<le> uint w" by (rule order_trans [rotated])
  have "sint w = signed_take_bit (LENGTH(64) - Suc 0) (uint w)"
    by (rule sint_uint)
  also have "\<dots> = signed_take_bit 63 (uint w)"
    by (simp only: l)
  also have "\<dots> = uint w"
    using g u by (rule signed_take_bit_int_eq_self)
  finally show ?thesis .
qed


lemma sbrk_grow:
  assumes ok: "sbrk inc s \<noteq> (- 1, s)" and small: "unat inc < 2 ^ 63"
  shows "sbrk inc s = (brk s, s\<lparr>brk := brk s + inc\<rparr>)"
    and "unat (brk s + inc) = unat (brk s) + unat inc"
proof -
  from sbrk_cases [of inc s] ok show "sbrk inc s = (brk s, s\<lparr>brk := brk s + inc\<rparr>)"
    by auto
  show "unat (brk s + inc) = unat (brk s) + unat inc"
  proof (cases "inc = 0")
    case True
    then show ?thesis by simp
  next
    case False
    with ok have "uint (brk s) + sint inc \<le> uint (brk_hi s)"
      by (auto simp: sbrk_def Let_def split: if_splits)
    then have "uint (brk s) + uint inc \<le> uint (brk_hi s)"
      by (simp only: sint_small [OF small])
    moreover have "uint (brk_hi s) < 2 ^ 64"
      using uint_lt2p [of "brk_hi s"] by simp
    ultimately have "uint (brk s) + uint inc < 2 ^ 64"
      by linarith
    then have "int (unat (brk s) + unat inc) < int (2 ^ 64)"
      by (simp only: uint_nat of_nat_add of_nat_power of_nat_numeral)
    then have "unat (brk s) + unat inc < 2 ^ 64"
      by (simp only: of_nat_less_iff)
    then show ?thesis
      by (simp add: unat_word_ariths)
  qed
qed

section \<open>Invariants of the heap\<close>

lemma naf_mono:
  "\<forall>x\<in>set bs. free_blk (m x) = 0 \<longrightarrow> free_blk (m' x) = 0 \<Longrightarrow>
   no_adj_free m bs \<Longrightarrow> no_adj_free m' bs"
  by (induction m bs rule: no_adj_free.induct) auto

lemma split_naf:
  assumes wf: "wf_heap s (pre @ b # post)"
    and fit: "asz \<le> size_blk (mem s b)"
    and al: "is_aligned asz"
    and fb: "free_blk (mem s b) \<noteq> 0"
    and naf: "no_adj_free (mem s) (pre @ b # post)"
  shows "no_adj_free (mem (snd (split b asz s)))
           (pre @ b # (if size_blk (mem s b) < asz + MIN_BLOCK_SIZE then []
                       else [b + ALIGNED_METADATA_SIZE + asz]) @ post)"
proof (cases "size_blk (mem s b) < asz + MIN_BLOCK_SIZE")
  case True
  have "no_adj_free ((mem s)(b := (mem s b)\<lparr>free_blk := 0\<rparr>)) (pre @ b # post)"
    using _ naf by (rule naf_mono) simp
  with True show ?thesis
    by (simp add: split_small)
next
  case False
  define nb where "nb = b + 32 + asz"
  define m' where "m' = mem (snd (split b asz s))"
  from split_wf [OF wf fit al] False
  have wf': "wf_heap (snd (split b asz s)) (pre @ b # nb # post)"
    by (simp add: nb_def)
  from wf_heap_parts(6) [OF wf'] have d: "distinct (pre @ b # nb # post)" .
  then have nb: "nb \<noteq> b" "nb \<notin> set pre" "nb \<notin> set post"
    and b: "b \<notin> set pre" "b \<notin> set post"
    by auto
  have m': "m' = (mem s)
        (nb := \<lparr>size_blk = size_blk (mem s b) - asz - 32, free_blk = 1,
                 next_blk = next_blk (mem s b)\<rparr>,
         b := \<lparr>size_blk = asz, free_blk = 0, next_blk = nb\<rparr>)"
    using split_big [of s b asz] False nb(1) by (simp add: nb_def m'_def)
  from naf have n_pre: "no_adj_free (mem s) (pre @ [b])" and n_post: "no_adj_free (mem s) (b # post)"
    using naf_append [of "mem s" pre b post] by simp_all
  have 1: "no_adj_free m' (pre @ [b])"
    using _ n_pre by (rule naf_mono) (use nb(2) in \<open>auto simp: m'\<close>)
  have "no_adj_free m' post = no_adj_free (mem s) post"
    by (rule naf_cong) (use nb(3) b(2) in \<open>auto simp: m'\<close>)
  moreover have "post \<noteq> [] \<Longrightarrow> free_blk (m' (hd post)) = 0"
    using n_post fb nb(3) b(2) by (cases post) (auto simp: m')
  ultimately have "no_adj_free m' (nb # post)"
    using n_post by (auto simp: naf_Cons)
  then have 2: "no_adj_free m' (b # nb # post)"
    by (simp add: m')
  from 1 2 have "no_adj_free m' (pre @ b # nb # post)"
    by (simp add: naf_append [of m' pre b "nb # post"])
  with False show ?thesis
    by (simp add: nb_def m'_def)
qed

lemma align_request:
  assumes "unat n + 47 < 2 ^ 63"
  shows "unat (32 + align n) = 32 + unat (align n)" and "unat (32 + align n) < 2 ^ 63"
    and "unat n \<le> unat (align n)"
proof -
  from assms have le: "unat n \<le> 2 ^ 64 - 16" by simp
  from align_ge [OF le] show "unat n \<le> unat (align n)" by simp
  from align_ge(2) [OF le] assms have b: "32 + unat (align n) < 2 ^ 63" by simp
  have "unat (32 + align n) = (32 + unat (align n)) mod 2 ^ 64"
    by (simp add: unat_word_ariths)
  also have "\<dots> = 32 + unat (align n)"
    using b by simp
  finally show "unat (32 + align n) = 32 + unat (align n)" .
  with b show "unat (32 + align n) < 2 ^ 63" by simp
qed

lemma mallocate_wf:
  assumes wf: "wf_heap s bs" and bound: "unat n + 47 < 2 ^ 63"
  shows "\<exists>p s' bs'. mallocate n s = Some (p, s') \<and> wf_heap s' bs' \<and>
           (no_adj_free (mem s) bs \<longrightarrow> no_adj_free (mem s') bs')"
proof (cases "\<exists>x\<in>set bs. fits (mem s) (align n) x")
  case True
  then obtain x where x: "x \<in> set bs" "fits (mem s) (align n) x" by blast
  from mallocate_fit [OF wf x] obtain pre b post s' where
    r: "bs = pre @ b # post" "fits (mem s) (align n) b"
      "mallocate n s = Some (b + ALIGNED_METADATA_SIZE, s')"
      "s' = snd (split b (align n) s)"
      "wf_heap s' (pre @ b # (if size_blk (mem s b) < align n + MIN_BLOCK_SIZE then []
                                   else [b + ALIGNED_METADATA_SIZE + align n]) @ post)"
    by blast
  from r(2) have fb: "free_blk (mem s b) \<noteq> 0" and le: "align n \<le> size_blk (mem s b)"
    by (simp_all add: fits_def)
  from wf have wf': "wf_heap s (pre @ b # post)" by (simp add: r(1))
  have "no_adj_free (mem s) bs \<longrightarrow>
      no_adj_free (mem s') (pre @ b # (if size_blk (mem s b) < align n + MIN_BLOCK_SIZE then []
                                   else [b + ALIGNED_METADATA_SIZE + align n]) @ post)"
    unfolding r(1) r(4) using split_naf [OF wf' le is_aligned_align fb] by blast
  with r(3,5) show ?thesis by blast
next
  case False
  then have nofit: "list_all (\<lambda>b. \<not> fits (mem s) (align n) b) bs"
    by (simp add: list_all_iff)
  define s1 where "s1 = (if heap_start s = 0 then s\<lparr>heap_start := brk s\<rparr> else s)"
  from wf have la: "laid (mem s) (unat (heap_start s)) bs (unat (brk s))"
    and ab: "is_aligned (brk s)" and b0: "brk s \<noteq> 0" and al: "list_all is_aligned bs"
    and hs: "heap_start s = 0 \<longrightarrow> bs = []"
    by (simp_all add: wf_heap_def)
  have la1: "laid (mem s) (unat (heap_start s1)) bs (unat (brk s))"
    using la hs by (auto simp: s1_def)
  have wf1: "wf_heap s1 bs"
    using wf b0 la1 by (auto simp: wf_heap_def s1_def)
  from mallocate_no_fit [OF wf nofit] obtain r s2 where
    sb: "sbrk (ALIGNED_METADATA_SIZE + align n) s1 = (r, s2)"
    and res: "if r = - 1 then mallocate n s = Some (0, s1) \<and> s2 = s1
            else r = brk s \<and> brk s2 = brk s + (ALIGNED_METADATA_SIZE + align n) \<and>
              (\<exists>s'. mallocate n s = Some (r + ALIGNED_METADATA_SIZE, s') \<and>
                 chain (mem s') (head s') (bs @ [r]) \<and>
                 mem s' r = \<lparr>size_blk = align n, free_blk = 0, next_blk = 0\<rparr> \<and>
                 list_all (\<lambda>b. size_blk (mem s' b) = size_blk (mem s b) \<and>
                                free_blk (mem s' b) = free_blk (mem s b)) bs \<and>
                 brk s' = brk s2 \<and> heap_start s' = heap_start s1)"
    unfolding s1_def by blast
  show ?thesis
  proof (cases "r = - 1")
    case True
    with res have "mallocate n s = Some (0, s1)" by simp
    moreover have "mem s1 = mem s" by (simp add: s1_def)
    ultimately show ?thesis using wf1 by auto
  next
    case False
    with res obtain s' where r: "r = brk s" "brk s2 = brk s + (32 + align n)"
      and m: "mallocate n s = Some (r + 32, s')"
      and ch: "chain (mem s') (head s') (bs @ [r])"
      and blk: "mem s' r = \<lparr>size_blk = align n, free_blk = 0, next_blk = 0\<rparr>"
      and same: "list_all (\<lambda>b. size_blk (mem s' b) = size_blk (mem s b) \<and>
                                free_blk (mem s' b) = free_blk (mem s b)) bs"
      and br: "brk s' = brk s2" and hst: "heap_start s' = heap_start s1"
      by auto
    note ar = align_request [OF bound]
    have "brk s1 = brk s" by (simp add: s1_def)
    moreover from sb False r(1) have "sbrk (32 + align n) s1 \<noteq> (- 1, s1)" by auto
    ultimately have ub: "unat (brk s + (32 + align n)) = unat (brk s) + (32 + unat (align n))"
      using sbrk_grow(2) [of "32 + align n" s1] ar(1,2) by simp
    have l1: "laid (mem s') (unat (heap_start s1)) bs (unat (brk s))
        = laid (mem s) (unat (heap_start s1)) bs (unat (brk s))"
      by (rule laid_cong) (use same in \<open>auto simp: list_all_iff\<close>)
    have "laid (mem s') (unat r) [r] (unat (brk s'))"
      using blk ub by (simp add: br r)
    then have la': "laid (mem s') (unat (heap_start s')) (bs @ [r]) (unat (brk s'))"
      unfolding laid_append using l1 la1 by (simp add: hst r(1))
    have al': "list_all is_aligned (bs @ [r])"
      using al ab by (simp add: r(1))
    have ab': "is_aligned (brk s')"
      unfolding br r(2) using ab is_aligned_32 is_aligned_align
      by (intro is_aligned_add)
    have b0': "brk s' \<noteq> 0"
      using ub by (auto simp: br r(2) unat_eq_zero [symmetric] simp del: unat_eq_zero)
    have hs': "heap_start s' \<noteq> 0"
      using b0 by (auto simp: hst s1_def)
    have wf': "wf_heap s' (bs @ [r])"
      using ch la' al' ab' b0' hs' by (simp add: wf_heap_def)
    have "no_adj_free (mem s') bs = no_adj_free (mem s) bs"
      by (rule naf_cong) (use same in \<open>auto simp: list_all_iff\<close>)
    then have "no_adj_free (mem s) bs \<longrightarrow> no_adj_free (mem s') (bs @ [r])"
      using blk by (simp add: naf_snoc)
    with m wf' show ?thesis by blast
  qed
qed

lemma ex_result:
  "mfree p s = Some a \<Longrightarrow> wf_heap a c \<Longrightarrow>
   (no_adj_free (mem s) bs \<Longrightarrow> no_adj_free (mem a) c) \<Longrightarrow>
   \<exists>s' bs'. mfree p s = Some s' \<and> wf_heap s' bs' \<and>
     (no_adj_free (mem s) bs \<longrightarrow> no_adj_free (mem s') bs')"
  by blast

lemma mfree_wf:
  assumes wf: "wf_heap s bs" and ptr: "ptr = 0 \<or> ptr - 32 \<in> set bs"
  shows "\<exists>s' bs'. mfree ptr s = Some s' \<and> wf_heap s' bs' \<and>
           (no_adj_free (mem s) bs \<longrightarrow> no_adj_free (mem s') bs')"
proof (cases "mfree ptr s = Some s")
  case True
  with wf show ?thesis by blast
next
  case False
  then have c: "ptr \<noteq> 0" "ptr < brk s" "free_blk (mem s (ptr - 32)) = 0"
    by (auto simp: mfree_def Let_def split: if_splits)
  define b where "b = ptr - 32"
  have p: "ptr = b + 32" by (simp add: b_def)
  from ptr c(1) have "b \<in> set bs" by (simp add: b_def)
  then obtain pre post where bs: "bs = pre @ b # post"
    by (auto dest: split_list)
  from wf have wf': "wf_heap s (pre @ b # post)" by (simp add: bs)
  from c have fr: "free_blk (mem s b) = 0" and rng: "b + 32 < brk s"
    by (simp_all add: b_def)
  note r = mfree_chain [OF wf' fr rng]
  show ?thesis
    unfolding p bs using r(4) by (intro ex_result [OF r(2) r(3)]) simp
qed

lemma fresh_wf:
  "head s = 0 \<Longrightarrow> heap_start s = 0 \<Longrightarrow> is_aligned (brk s) \<Longrightarrow> brk s \<noteq> 0 \<Longrightarrow> wf_heap s []"
  by (simp add: wf_heap_def chain_def)

lemma chain_unique: "chain m p bs \<Longrightarrow> chain m p cs \<Longrightarrow> bs = cs"
  unfolding chain_def by (rule chain_seg_unique)

lemma wf_heap_chain: "wf_heap s bs \<Longrightarrow> chain (mem s) (head s) bs"
  by (simp add: wf_heap_def)

text \<open>
  Extending the heap for a request of at most \<open>2^63 - 48\<close> bytes, in a well-formed heap in
  which no block of the chain fits the request (the chain may be empty): \<^verbatim>\<open>mallocate\<close>
  asks \<^verbatim>\<open>sbrk\<close> for the header size plus the aligned size, a sum that does not wrap
  around and is positive as an \<^verbatim>\<open>intptr_t\<close>. When \<^verbatim>\<open>sbrk\<close> fails, the result is \<^verbatim>\<open>NULL\<close>
  and memory, \<open>head\<close> and the break are as before. When it succeeds, the result is the
  usable region of a block at the old break; the chain is the old one followed by that
  block, which is allocated, has the aligned size and no successor; the sizes and states
  of the old blocks are as before, the break has moved up by the header size plus the
  aligned size, and the heap is well formed. For larger requests see
  \<open>mallocate_no_growth\<close> below.
\<close>

lemma mallocate_grow:
  assumes wf: "wf_heap s bs"
    and nofit: "list_all (\<lambda>b. \<not> fits (mem s) (align n) b) bs"
    and bound: "unat n + 47 < 2 ^ 63"
  shows "\<exists>s1 r s2.
           s1 = (if heap_start s = 0 then s\<lparr>heap_start := brk s\<rparr> else s) \<and>
           sbrk (ALIGNED_METADATA_SIZE + align n) s1 = (r, s2) \<and>
           unat (ALIGNED_METADATA_SIZE + align n) = unat ALIGNED_METADATA_SIZE + unat (align n) \<and>
           unat n \<le> unat (align n) \<and>
           (if r = - 1 then mallocate n s = Some (0, s1)
            else r = brk s \<and>
              (\<exists>s'. mallocate n s = Some (r + ALIGNED_METADATA_SIZE, s') \<and>
                 wf_heap s' (bs @ [r]) \<and>
                 mem s' r = \<lparr>size_blk = align n, free_blk = 0, next_blk = 0\<rparr> \<and>
                 list_all (\<lambda>b. size_blk (mem s' b) = size_blk (mem s b) \<and>
                                free_blk (mem s' b) = free_blk (mem s b)) bs \<and>
                 unat (brk s') = unat (brk s) + unat ALIGNED_METADATA_SIZE + unat (align n)))"
proof -
  define s1 where "s1 = (if heap_start s = 0 then s\<lparr>heap_start := brk s\<rparr> else s)"
  note ar = align_request [OF bound]
  from mallocate_no_fit [OF wf nofit] obtain r s2 where
    sb: "sbrk (ALIGNED_METADATA_SIZE + align n) s1 = (r, s2)"
    and res: "if r = - 1 then mallocate n s = Some (0, s1) \<and> s2 = s1
            else r = brk s \<and> brk s2 = brk s + (ALIGNED_METADATA_SIZE + align n) \<and>
              (\<exists>s'. mallocate n s = Some (r + ALIGNED_METADATA_SIZE, s') \<and>
                 chain (mem s') (head s') (bs @ [r]) \<and>
                 mem s' r = \<lparr>size_blk = align n, free_blk = 0, next_blk = 0\<rparr> \<and>
                 list_all (\<lambda>b. size_blk (mem s' b) = size_blk (mem s b) \<and>
                                free_blk (mem s' b) = free_blk (mem s b)) bs \<and>
                 brk s' = brk s2 \<and> heap_start s' = heap_start s1)"
    unfolding s1_def by blast
  have "if r = - 1 then mallocate n s = Some (0, s1)
        else r = brk s \<and>
          (\<exists>s'. mallocate n s = Some (r + ALIGNED_METADATA_SIZE, s') \<and>
             wf_heap s' (bs @ [r]) \<and>
             mem s' r = \<lparr>size_blk = align n, free_blk = 0, next_blk = 0\<rparr> \<and>
             list_all (\<lambda>b. size_blk (mem s' b) = size_blk (mem s b) \<and>
                            free_blk (mem s' b) = free_blk (mem s b)) bs \<and>
             unat (brk s') = unat (brk s) + unat ALIGNED_METADATA_SIZE + unat (align n))"
  proof (cases "r = - 1")
    case True
    with res show ?thesis by simp
  next
    case False
    with res obtain s' where r: "r = brk s" "brk s2 = brk s + (32 + align n)"
      and m: "mallocate n s = Some (r + 32, s')"
      and ch: "chain (mem s') (head s') (bs @ [r])"
      and blk: "mem s' r = \<lparr>size_blk = align n, free_blk = 0, next_blk = 0\<rparr>"
      and same: "list_all (\<lambda>b. size_blk (mem s' b) = size_blk (mem s b) \<and>
                                free_blk (mem s' b) = free_blk (mem s b)) bs"
      and br: "brk s' = brk s2"
      by auto
    have "brk s1 = brk s" by (simp add: s1_def)
    moreover from sb False r(1) have "sbrk (32 + align n) s1 \<noteq> (- 1, s1)" by auto
    ultimately have ub: "unat (brk s + (32 + align n)) = unat (brk s) + (32 + unat (align n))"
      using sbrk_grow(2) [of "32 + align n" s1] ar(1,2) by simp
    from mallocate_wf [OF wf bound] m obtain bs' where wf': "wf_heap s' bs'"
      by auto
    with ch have "bs' = bs @ [r]"
      by (auto dest: wf_heap_chain chain_unique)
    with wf' have "wf_heap s' (bs @ [r])" by simp
    moreover have "unat (brk s') = unat (brk s) + 32 + unat (align n)"
      using ub by (simp add: br r(2))
    ultimately show ?thesis
      using False r(1) m blk same by auto
  qed
  with sb ar show ?thesis
    by (intro exI [of _ s1] exI [of _ r] exI [of _ s2]) (simp add: s1_def)
qed


lemma mallocate_grow_example:
  "(\<exists>s'. mallocate 10 heap_fresh = Some (4128, s') \<and> wf_heap s' [4096] \<and>
         mem s' 4096 = \<lparr>size_blk = 16, free_blk = 0, next_blk = 0\<rparr> \<and> unat (brk s') = 4144) \<and>
   mallocate 10 heap_full = Some (0, heap_full)"
proof -
  have w1: "wf_heap heap_fresh []"
    by (simp add: wf_heap_def chain_def heap_fresh_def is_aligned_def ALIGNMENT_def)
  have w2: "wf_heap heap_full [4096]"
    by (simp add: wf_heap_def chain_def heap_full_def heap_one_alloc_def mem0_def
        is_aligned_def ALIGNMENT_def)
  have n2: "list_all (\<lambda>b. \<not> fits (mem heap_full) (align 10) b) [4096]"
    by (simp add: fits_def heap_full_def heap_one_alloc_def)
  have b: "unat (10 :: size_t) + 47 < 2 ^ 63" by simp
  have a: "align 10 = 16" by (simp add: align_and)
  have e1: "sbrk (ALIGNED_METADATA_SIZE + align 10) (heap_fresh\<lparr>heap_start := brk heap_fresh\<rparr>)
      = (4096, heap_fresh\<lparr>heap_start := 4096, brk := 4144\<rparr>)"
    by (simp add: a sbrk_def heap_fresh_def)
  have e2: "sbrk (ALIGNED_METADATA_SIZE + align 10) heap_full = (- 1, heap_full)"
    by (simp add: a sbrk_def heap_full_def heap_one_alloc_def)
  from mallocate_grow [OF w1 _ b] e1
  have r1: "\<exists>s'. mallocate 10 heap_fresh = Some (4128, s') \<and> wf_heap s' [4096] \<and>
         mem s' 4096 = \<lparr>size_blk = 16, free_blk = 0, next_blk = 0\<rparr> \<and> unat (brk s') = 4144"
    by (auto simp: a heap_fresh_def)
  from mallocate_grow [OF w2 n2 b] e2
  have r2: "mallocate 10 heap_full = Some (0, heap_full)"
    by (auto simp: heap_full_def heap_one_alloc_def)
  from r1 r2 show ?thesis by simp
qed

lemma reachable_inv:
  "reachable s \<Longrightarrow> \<exists>bs. wf_heap s bs \<and> no_adj_free (mem s) bs"
proof (induction rule: reachable.induct)
  case (fresh s)
  then have "wf_heap s []" by (rule fresh_wf)
  then show ?case by (intro exI [of _ "[]"]) simp
next
  case (allocate s n p s')
  then obtain bs where "wf_heap s bs" "no_adj_free (mem s) bs" by blast
  with mallocate_wf [OF this(1) allocate(2)] allocate(3) show ?case by auto
next
  case (release s bs ptr s')
  then obtain cs where cs: "wf_heap s cs" "no_adj_free (mem s) cs" by blast
  with release(2) have "cs = bs"
    by (auto dest: wf_heap_chain chain_unique)
  with cs release(3) mfree_wf [of s bs ptr] release(4) show ?case by auto
next
  case (store s bs m')
  then obtain cs where cs: "wf_heap s cs" "no_adj_free (mem s) cs" by blast
  with store(2) have e: "cs = bs"
    by (auto dest: wf_heap_chain chain_unique)
  have "wf_heap (s\<lparr>mem := m'\<rparr>) bs = wf_heap s bs"
    by (rule wf_heap_mem_cong) (use store(3) in \<open>auto simp: list_all_iff\<close>)
  moreover have "no_adj_free m' bs = no_adj_free (mem s) bs"
    by (rule naf_cong) (use store(3) in \<open>auto simp: list_all_iff\<close>)
  ultimately show ?case using cs e by auto
qed

lemma mallocate_aligned:
  assumes wf: "wf_heap s bs" and m: "mallocate n s = Some (p, s')" and p: "p \<noteq> 0"
  shows "is_aligned p"
proof (cases "\<exists>x\<in>set bs. fits (mem s) (align n) x")
  case True
  then obtain x where x: "x \<in> set bs" "fits (mem s) (align n) x" by blast
  from mallocate_fit [OF wf x] m obtain pre b post where
    "bs = pre @ b # post" "p = b + 32"
    by auto
  moreover from this wf have "is_aligned b" by (simp add: wf_heap_def)
  ultimately show ?thesis
    using is_aligned_32 by (auto intro: is_aligned_add)
next
  case False
  then have nofit: "list_all (\<lambda>b. \<not> fits (mem s) (align n) b) bs"
    by (simp add: list_all_iff)
  from wf have ab: "is_aligned (brk s)" by (simp add: wf_heap_def)
  from mallocate_no_fit [OF wf nofit] m p have "p = brk s + 32"
    by (auto split: if_splits)
  with ab is_aligned_32 show ?thesis
    by (auto intro: is_aligned_add)
qed

section \<open>Invariants of the states reached\<close>

lemmas eval_defs = mallocate_def grow_first_def grow_last_def sbrk_def split_def mfree_def
  coalesce_def is_aligned_def ALIGNMENT_def align_and Let_def mem0_def fun_eq_iff
  mallocate_loop.simps coalesce_forward.simps find_prev.simps

lemma step1: "mallocate 64 heap_fresh = Some (4128, heap_one_alloc)"
  by (simp add: eval_defs heap_fresh_def heap_one_alloc_def)

lemma step2: "mallocate 32 heap_one_alloc = Some (4224, heap_two)"
  by (simp add: eval_defs heap_one_alloc_def heap_two_def)

lemma step3: "mallocate 48 heap_two = Some (4288, heap_three_alloc)"
  by (simp add: eval_defs heap_two_def heap_three_alloc_def)

lemma step4: "mfree 4224 heap_three_alloc = Some heap_b_free"
  by (simp add: eval_defs heap_three_alloc_def heap_b_free_def)

lemma step5: "mfree 4288 heap_b_free = Some heap_bc_merged"
  by (simp add: eval_defs heap_b_free_def heap_bc_merged_def)

lemma reachable_fresh: "reachable heap_fresh"
  by (rule reachable.fresh) (simp_all add: heap_fresh_def is_aligned_def ALIGNMENT_def)

lemma reachable_one: "reachable heap_one_alloc"
  using reachable_fresh _ step1 by (rule reachable.allocate) simp

lemma reachable_two: "reachable heap_two"
  using reachable_one _ step2 by (rule reachable.allocate) simp

lemma reachable_three: "reachable heap_three_alloc"
  using reachable_two _ step3 by (rule reachable.allocate) simp

lemma chain_three_alloc: "chain (mem heap_three_alloc) (head heap_three_alloc) [4096, 4192, 4256]"
  by (simp add: chain_def heap_three_alloc_def)

lemma chain_b_free: "chain (mem heap_b_free) (head heap_b_free) [4096, 4192, 4256]"
  by (simp add: chain_def heap_b_free_def)

lemma reachable_b_free: "reachable heap_b_free"
  using reachable_three chain_three_alloc _ step4 by (rule reachable.release) simp

lemma reachable_bc_merged: "reachable heap_bc_merged"
  using reachable_b_free chain_b_free _ step5 by (rule reachable.release) simp

lemma mallocate_total:
  assumes wf: "wf_heap s bs"
  shows "\<exists>p s'. mallocate n s = Some (p, s')"
proof (cases "\<exists>x\<in>set bs. fits (mem s) (align n) x")
  case True
  then obtain x where x: "x \<in> set bs" "fits (mem s) (align n) x" by blast
  from mallocate_fit [OF wf x] show ?thesis by blast
next
  case False
  then have nofit: "list_all (\<lambda>b. \<not> fits (mem s) (align n) b) bs"
    by (simp add: list_all_iff)
  from mallocate_no_fit [OF wf nofit] show ?thesis
    by (auto split: if_splits)
qed

lemma reachable_returns:
  assumes "reachable s"
  shows "\<exists>p s'. mallocate n s = Some (p, s')"
    and "chain (mem s) (head s) bs \<Longrightarrow> ptr = 0 \<or> ptr - 32 \<in> set bs \<Longrightarrow> \<exists>s'. mfree ptr s = Some s'"
proof -
  from reachable_inv [OF assms] obtain cs where wf: "wf_heap s cs" by blast
  from mallocate_total [OF wf] show "\<exists>p s'. mallocate n s = Some (p, s')" .
  show "\<exists>s'. mfree ptr s = Some s'"
    if "chain (mem s) (head s) bs" and p: "ptr = 0 \<or> ptr - 32 \<in> set bs"
  proof -
    from that(1) wf have "cs = bs"
      by (auto dest: wf_heap_chain chain_unique)
    with wf p mfree_wf [of s bs ptr] show ?thesis by auto
  qed
qed

text \<open>
  In every state the allocator reaches when it is used as intended (see \<open>reachable\<close>: the
  states after each \<^verbatim>\<open>mallocate\<close> of at most \<open>2^63 - 48\<close> bytes and each \<^verbatim>\<open>mfree\<close> of a
  block of the chain), no two blocks that follow each other in the chain are both free.
  In these states both operations return (\<open>reachable_returns\<close>). For larger requests see
  \<open>adjacent_free_blocks\<close> below.
\<close>

lemma no_adjacent_free:
  assumes "reachable s" and "chain (mem s) (head s) bs"
  shows "no_adj_free (mem s) bs"
proof -
  from reachable_inv [OF assms(1)] obtain cs where "wf_heap s cs" "no_adj_free (mem s) cs"
    by blast
  moreover from this assms(2) have "cs = bs"
    by (auto dest: wf_heap_chain chain_unique)
  ultimately show ?thesis by simp
qed

lemma no_adjacent_free_example:
  "reachable heap_bc_merged \<and>
   chain (mem heap_bc_merged) (head heap_bc_merged) [4096, 4192] \<and>
   free_blk (mem heap_bc_merged 4192) = 1 \<and>
   no_adj_free (mem heap_bc_merged) [4096, 4192]"
proof -
  have c: "chain (mem heap_bc_merged) (head heap_bc_merged) [4096, 4192]"
    by (simp add: chain_def heap_bc_merged_def)
  from no_adjacent_free [OF reachable_bc_merged c] reachable_bc_merged c show ?thesis
    by (simp add: heap_bc_merged_def)
qed

text \<open>
  C9. When the break is aligned to 16 bytes before the first allocation, then in every
  state reached by intended use \<^verbatim>\<open>mallocate\<close> returns, for any requested size, and the
  pointer it returns is a multiple of 16, which is what \<^verbatim>\<open>is_aligned\<close> tests.
\<close>

theorem mallocate_returns_aligned:
  assumes "reachable s"
  shows "\<exists>p s'. mallocate n s = Some (p, s') \<and> is_aligned p"
proof -
  from reachable_inv [OF assms] obtain bs where wf: "wf_heap s bs" by blast
  from mallocate_total [OF wf] obtain p s' where m: "mallocate n s = Some (p, s')"
    by blast
  have "is_aligned p"
  proof (cases "p = 0")
    case True
    then show ?thesis by (simp add: is_aligned_def)
  next
    case False
    with wf m show ?thesis by (rule mallocate_aligned)
  qed
  with m show ?thesis by blast
qed

theorem mallocate_returns_aligned_witness:
  "reachable heap_two \<and> mallocate 48 heap_two = Some (4288, heap_three_alloc) \<and>
   is_aligned 4288"
  using mallocate_returns_aligned [OF reachable_two, of 48] reachable_two step3 by simp

section \<open>Requests of size 0 and of the largest size\<close>

text \<open>
  C2. \<^verbatim>\<open>mallocate(0)\<close> in a fresh process returns a pointer to a block whose size is 0,
  not at least 16: \<^verbatim>\<open>align(0)\<close> is 0 and the block gets exactly the aligned size. The
  state is one reached by intended use. The pointer returned equals the program break, so
  a later \<^verbatim>\<open>mfree\<close> of it fails the range check and leaves the block allocated.
\<close>

theorem mallocate_zero:
  "align 0 = 0 \<and>
   mallocate 0 heap_fresh = Some (4128, heap_zero) \<and> reachable heap_zero \<and>
   chain (mem heap_zero) (head heap_zero) [4096] \<and>
   size_blk (mem heap_zero 4096) = 0 \<and>
   unat (size_blk (mem heap_zero 4096)) < unat ALIGNMENT \<and>
   mfree 4128 heap_zero = Some heap_zero"
proof -
  have m: "mallocate 0 heap_fresh = Some (4128, heap_zero)"
    by (simp add: eval_defs heap_fresh_def heap_zero_def)
  have "reachable heap_zero"
    using reachable_fresh _ m by (rule reachable.allocate) simp
  moreover have "mfree 4128 heap_zero = Some heap_zero"
    by (simp add: mfree_def heap_zero_def)
  ultimately show ?thesis
    using m by (simp add: align_and chain_def heap_zero_def ALIGNMENT_def)
qed

lemma split_size:
  "size_blk (mem (snd (split b sz s)) b) =
     (if size_blk (mem s b) < sz + MIN_BLOCK_SIZE then size_blk (mem s b) else sz)"
  by (simp add: split_def Let_def)

lemma mallocate_capacity:
  assumes wf: "wf_heap s bs" and n: "unat n \<le> 2 ^ 64 - 16"
    and m: "mallocate n s = Some (p, s')" and p: "p \<noteq> 0"
  shows "n \<le> size_blk (mem s' (p - ALIGNED_METADATA_SIZE))"
proof -
  from align_ge(1) [OF n] have le: "n \<le> align n"
    by (simp add: word_le_nat_alt)
  show ?thesis
  proof (cases "\<exists>x\<in>set bs. fits (mem s) (align n) x")
    case True
    then obtain x where x: "x \<in> set bs" "fits (mem s) (align n) x" by blast
    from mallocate_fit [OF wf x] m obtain b where
      b: "fits (mem s) (align n) b" "p = b + 32" "s' = snd (split b (align n) s)"
      by auto
    from b(1) have "align n \<le> size_blk (mem s b)" by (simp add: fits_def)
    then have "align n \<le> size_blk (mem s' b)"
      by (simp add: b(3) split_size)
    with le show ?thesis by (simp add: b(2))
  next
    case False
    then have nofit: "list_all (\<lambda>b. \<not> fits (mem s) (align n) b) bs"
      by (simp add: list_all_iff)
    from mallocate_no_fit [OF wf nofit] m p have "size_blk (mem s' (p - 32)) = align n"
      by (auto split: if_splits)
    with le show ?thesis by simp
  qed
qed

text \<open>
  C8. \<^verbatim>\<open>mallocate(SIZE_MAX)\<close> in a fresh process. The addition in \<^verbatim>\<open>align\<close> wraps around,
  the aligned size is 0, \<^verbatim>\<open>sbrk\<close> is asked for the 32 bytes of a header only and
  succeeds, and the call returns a pointer to a block of 0 usable bytes, fewer than the
  \<open>2^64 - 1\<close> requested. For requests of at most \<open>2^64 - 16\<close> bytes the size recorded in
  the block returned is at least the request (\<open>mallocate_capacity\<close>).
\<close>

theorem mallocate_size_max:
  "align (- 1) = 0 \<and>
   mallocate (- 1) heap_fresh = Some (4128, heap_zero) \<and>
   size_blk (mem heap_zero (4128 - ALIGNED_METADATA_SIZE)) = 0 \<and>
   size_blk (mem heap_zero (4128 - ALIGNED_METADATA_SIZE)) < (- 1 :: size_t)"
  by (simp add: eval_defs heap_fresh_def heap_zero_def word_gt_0)

section \<open>Requests whose sizes wrap around\<close>

text \<open>
  \<^verbatim>\<open>mallocate\<close> computes the aligned size, the number of bytes it asks \<^verbatim>\<open>sbrk\<close> for
  (header size plus aligned size) and, in \<^verbatim>\<open>split\<close>, the least size of a block that can
  be split (size plus \<^verbatim>\<open>MIN_BLOCK_SIZE\<close>) in \<^verbatim>\<open>size_t\<close> and checks none of the sums. For
  requests close to \<open>2^64\<close> they wrap around, and the block appended records a size far
  greater than the bytes obtained. The theorems of this section follow such requests
  through calls of \<^verbatim>\<open>mallocate\<close> and \<^verbatim>\<open>mfree\<close> in a fresh process whose break is 4096.
  Every increment passed to \<^verbatim>\<open>sbrk\<close> in them is 0 or positive.

  Behind a block that got 16 bytes for its 32-byte header the next block is appended 16
  bytes further, as the blocks at 4192 and 4208 below. In the machine the two headers
  share bytes: the \<^verbatim>\<open>next\<close> field of the first is the \<^verbatim>\<open>size\<close> field of the second, so
  that size reads as the last pointer stored in the first block's \<^verbatim>\<open>next\<close>. The store
  keeps the two headers apart. No call followed here reads that size, and the values the
  theorems state are outside the shared bytes or were written to them last: they are the
  values of the machine as well.
\<close>

text \<open>
  C7. \<^verbatim>\<open>mallocate(2^64 - 32)\<close> after \<^verbatim>\<open>mallocate(64)\<close>. The only block is allocated, so
  none fits. The aligned size is \<open>2^64 - 32\<close>; header size plus aligned size is \<open>2^64\<close>,
  which is 0 in \<^verbatim>\<open>size_t\<close>, and \<^verbatim>\<open>sbrk\<close> is asked for 0 bytes, not for \<open>2^64\<close>. \<^verbatim>\<open>sbrk(0)\<close>
  returns the break and does not move it, \<^verbatim>\<open>mallocate\<close> takes that for success, writes
  a header of size \<open>2^64 - 32\<close> at the break, links it to the chain and returns the
  address 32 bytes behind the break: the block appended lies outside the heap, which has
  not grown. For requests of at most \<open>2^63 - 48\<close> bytes the heap grows by the header size
  plus the aligned size (\<open>mallocate_grow\<close>).
\<close>

theorem mallocate_no_growth:
  "mallocate 64 heap_fresh = Some (4128, heap_one_alloc) \<and>
   list_all (\<lambda>b. \<not> fits (mem heap_one_alloc) (align (- 32)) b) [4096] \<and>
   align (- 32) = - 32 \<and>
   ALIGNED_METADATA_SIZE + align (- 32) = 0 \<and>
   sbrk (ALIGNED_METADATA_SIZE + align (- 32)) heap_one_alloc = (4192, heap_one_alloc) \<and>
   (\<exists>s'. mallocate (- 32) heap_one_alloc = Some (4224, s') \<and>
         brk s' = brk heap_one_alloc \<and> brk s' = 4192 \<and>
         chain (mem s') (head s') [4096, 4192] \<and>
         mem s' 4192 = \<lparr>size_blk = - 32, free_blk = 0, next_blk = 0\<rparr> \<and>
         \<not> laid (mem s') (unat (heap_start s')) [4096, 4192] (unat (brk s')))"
  by (simp add: eval_defs heap_fresh_def heap_one_alloc_def chain_def fits_def)

text \<open>
  C3. After \<^verbatim>\<open>mallocate(64)\<close>, \<^verbatim>\<open>mallocate(2^64 - 16)\<close>, \<^verbatim>\<open>mallocate(16)\<close> and \<^verbatim>\<open>mfree\<close> of
  the second pointer, the block at 4192 is free and has the size \<open>2^64 - 16\<close> it got when
  it was appended (header size plus size had wrapped around to 16, and \<^verbatim>\<open>sbrk\<close> gave 16
  bytes). \<^verbatim>\<open>mallocate(2^64 - 48)\<close> finds it and calls \<^verbatim>\<open>split\<close> with the size
  \<open>2^64 - 48\<close>. The block has 32 bytes more than that, fewer than the 48 a split needs,
  so by the comment in \<^verbatim>\<open>split\<close> it is too small to split and is to be marked allocated
  and returned as it is. But \<open>size + MIN_BLOCK_SIZE\<close> is 0 in \<^verbatim>\<open>size_t\<close>, the block's size
  is not below it, and \<^verbatim>\<open>split\<close> splits: the block gets the size \<open>2^64 - 48\<close> and the
  successor 4176 in place of 4208, and the header of a free block of size 0 is written at
  4176, inside the usable bytes 4128 to 4191 of the first block, which is allocated. For
  sizes whose sum with \<^verbatim>\<open>MIN_BLOCK_SIZE\<close> does not wrap around, \<^verbatim>\<open>split\<close> does what the
  comment says (\<open>split_spec\<close>).
\<close>

theorem split_wraps:
  "\<exists>s s'.
     run_calls [Mallocate 64, Mallocate (- 16), Mallocate 16, Mfree 4224] heap_fresh
       = Some ([4128, 4224, 4240], s) \<and>
     chain (mem s) (head s) [4096, 4192, 4208] \<and>
     mem s 4096 = \<lparr>size_blk = 64, free_blk = 0, next_blk = 4192\<rparr> \<and>
     mem s 4192 = \<lparr>size_blk = - 16, free_blk = 1, next_blk = 4208\<rparr> \<and>
     align (- 48) = - 48 \<and>
     mallocate (- 48) s = Some (4224, s') \<and>
     s' = snd (split 4192 (- 48) s) \<and>
     unat (size_blk (mem s 4192)) < unat (- 48 :: size_t) + unat ALIGNED_METADATA_SIZE + unat ALIGNMENT \<and>
     \<not> size_blk (mem s 4192) < - 48 + MIN_BLOCK_SIZE \<and>
     mem s' 4192 = \<lparr>size_blk = - 48, free_blk = 0, next_blk = 4176\<rparr> \<and>
     size_blk (mem s' 4176) = 0 \<and> free_blk (mem s' 4176) = 1"
  by (simp add: eval_defs heap_fresh_def chain_def)

text \<open>
  C5. Four blocks are allocated, of 16, 16, \<open>2^64 - 16\<close> and 16 bytes, at 4096, 4144, 4192
  and 4208; the first and the third are released. Then \<^verbatim>\<open>mallocate(2^64 - 80)\<close> finds the
  third block, and \<^verbatim>\<open>split\<close>, in which \<open>size + MIN_BLOCK_SIZE\<close> wraps around, splits it:
  the new free block starts at \<open>4192 + 32 + (2^64 - 80)\<close>, which is 4144 in a pointer, the
  address of the second block. That block, allocated until then, now has a header that
  says free, with the successor 4208. The chain from \<open>head\<close> is 4096, 4144, 4208, and
  its first two blocks are both free. Each pointer released was returned by an earlier
  \<^verbatim>\<open>mallocate\<close>. In the states reached with requests of at most \<open>2^63 - 48\<close> bytes no two
  neighbours are free (\<open>no_adjacent_free\<close>).
\<close>

theorem adjacent_free_blocks:
  "\<exists>s. run_calls [Mallocate 16, Mallocate 16, Mallocate (- 16), Mallocate 16, Mfree 4128, Mfree 4224,
           Mallocate (- 80)] heap_fresh = Some ([4128, 4176, 4224, 4240, 4224], s) \<and>
       chain (mem s) (head s) [4096, 4144, 4208] \<and>
       free_blk (mem s 4096) = 1 \<and> free_blk (mem s 4144) = 1 \<and>
       \<not> no_adj_free (mem s) [4096, 4144, 4208]"
  by (simp add: eval_defs heap_fresh_def chain_def)

section \<open>Releasing a pointer that was never allocated\<close>

text \<open>
  C10. The four checks of \<^verbatim>\<open>mfree\<close> look at the pointer only: not \<^verbatim>\<open>NULL\<close>, between
  \<open>heap_start\<close> and the break, a multiple of 16, and the word read as the \<^verbatim>\<open>free\<close> field
  32 bytes before it is 0. For every pointer that passes them, whether or not a block of
  the chain starts 32 bytes before it, \<^verbatim>\<open>mfree\<close> writes 1 into that \<^verbatim>\<open>free\<close> field and
  runs \<^verbatim>\<open>coalesce\<close> on that address as if a header were there.
\<close>

theorem mfree_unchecked:
  assumes "ptr \<noteq> 0" and "heap_start s \<le> ptr" and "ptr < brk s" and "is_aligned ptr"
    and "free_blk (mem s (ptr - ALIGNED_METADATA_SIZE)) = 0"
  shows "mfree ptr s =
           map_option snd (coalesce (ptr - ALIGNED_METADATA_SIZE)
             (s\<lparr>mem := (mem s)(ptr - ALIGNED_METADATA_SIZE :=
                  (mem s (ptr - ALIGNED_METADATA_SIZE))\<lparr>free_blk := 1\<rparr>)\<rparr>)) \<and>
         (mfree ptr s = Some s' \<longrightarrow> free_blk (mem s' (ptr - ALIGNED_METADATA_SIZE)) = 1)"
proof -
  from assms(2,3) have "\<not> ptr < heap_start s" and "\<not> brk s \<le> ptr"
    by simp_all
  with assms have e: "mfree ptr s =
           map_option snd (coalesce (ptr - 32)
             (s\<lparr>mem := (mem s)(ptr - 32 := (mem s (ptr - 32))\<lparr>free_blk := 1\<rparr>)\<rparr>))"
    by (simp add: mfree_def Let_def)
  have "free_blk (mem s' (ptr - 32)) = 1" if "mfree ptr s = Some s'"
  proof -
    from that e obtain r where "coalesce (ptr - 32)
        (s\<lparr>mem := (mem s)(ptr - 32 := (mem s (ptr - 32))\<lparr>free_blk := 1\<rparr>)\<rparr>) = Some (r, s')"
      by auto
    from coalesce_keeps(1) [OF this, of "ptr - 32"] show ?thesis by simp
  qed
  with e show ?thesis by simp
qed

text \<open>Two pointers that \<^verbatim>\<open>mallocate\<close> never returned, in the heap after the single call
  \<^verbatim>\<open>mallocate(64)\<close>, which returned 4128. The first is \<open>heap_start\<close> itself: the header
  written lies at 4064, below \<open>heap_start\<close>. The second lies inside the usable bytes
  4128 to 4191 of the allocated block: the header written lies at 4128, in those bytes.
  In the heap of one free block, releasing \<open>heap_start\<close> also adds 32 bytes to the size of
  that block, which then reaches beyond the break.\<close>

theorem mfree_unchecked_witness:
  "mallocate 64 heap_fresh = Some (4128, heap_one_alloc) \<and>
   heap_start heap_one_alloc = 4096 \<and> brk heap_one_alloc = 4192 \<and>
   is_aligned 4096 \<and> is_aligned 4160 \<and>
   free_blk (mem heap_one_alloc 4064) = 0 \<and> free_blk (mem heap_one_alloc 4128) = 0 \<and>
   mfree 4096 heap_one_alloc =
     Some (heap_one_alloc\<lparr>mem := (mem heap_one_alloc)
        (4064 := \<lparr>size_blk = 0, free_blk = 1, next_blk = 0\<rparr>)\<rparr>) \<and>
   mfree 4160 heap_one_alloc =
     Some (heap_one_alloc\<lparr>mem := (mem heap_one_alloc)
        (4128 := \<lparr>size_blk = 0, free_blk = 1, next_blk = 0\<rparr>)\<rparr>) \<and>
   mfree 4096 heap_one_free =
     Some (heap_one_free\<lparr>mem := (mem heap_one_free)
        (4064 := \<lparr>size_blk = 0, free_blk = 1, next_blk = 0\<rparr>,
         4096 := \<lparr>size_blk = 96, free_blk = 1, next_blk = 0\<rparr>)\<rparr>)"
proof -
  have a: "is_aligned 4096" "is_aligned 4160"
    by (simp_all add: is_aligned_def ALIGNMENT_def)
  have p: "(4096 :: addr) \<noteq> 0" "heap_start heap_one_alloc \<le> 4096" "4096 < brk heap_one_alloc"
    "free_blk (mem heap_one_alloc (4096 - ALIGNED_METADATA_SIZE)) = 0"
    by (simp_all add: heap_one_alloc_def mem0_def)
  have q: "(4160 :: addr) \<noteq> 0" "heap_start heap_one_alloc \<le> 4160" "4160 < brk heap_one_alloc"
    "free_blk (mem heap_one_alloc (4160 - ALIGNED_METADATA_SIZE)) = 0"
    by (simp_all add: heap_one_alloc_def mem0_def)
  have c1: "coalesce 4064 (heap_one_alloc\<lparr>mem := (mem heap_one_alloc)
        (4064 := (mem heap_one_alloc 4064)\<lparr>free_blk := 1\<rparr>)\<rparr>) =
      Some (4064, heap_one_alloc\<lparr>mem := (mem heap_one_alloc)
        (4064 := \<lparr>size_blk = 0, free_blk = 1, next_blk = 0\<rparr>)\<rparr>)"
    by (simp add: eval_defs heap_one_alloc_def)
  have c2: "coalesce 4128 (heap_one_alloc\<lparr>mem := (mem heap_one_alloc)
        (4128 := (mem heap_one_alloc 4128)\<lparr>free_blk := 1\<rparr>)\<rparr>) =
      Some (4128, heap_one_alloc\<lparr>mem := (mem heap_one_alloc)
        (4128 := \<lparr>size_blk = 0, free_blk = 1, next_blk = 0\<rparr>)\<rparr>)"
    by (simp add: eval_defs heap_one_alloc_def)
  have 1: "mfree 4096 heap_one_alloc =
     Some (heap_one_alloc\<lparr>mem := (mem heap_one_alloc)
        (4064 := \<lparr>size_blk = 0, free_blk = 1, next_blk = 0\<rparr>)\<rparr>)"
    using mfree_unchecked [OF p(1,2,3) a(1) p(4)] c1 by simp
  have 2: "mfree 4160 heap_one_alloc =
     Some (heap_one_alloc\<lparr>mem := (mem heap_one_alloc)
        (4128 := \<lparr>size_blk = 0, free_blk = 1, next_blk = 0\<rparr>)\<rparr>)"
    using mfree_unchecked [OF q(1,2,3) a(2) q(4)] c2 by simp
  have 3: "mfree 4096 heap_one_free =
     Some (heap_one_free\<lparr>mem := (mem heap_one_free)
        (4064 := \<lparr>size_blk = 0, free_blk = 1, next_blk = 0\<rparr>,
         4096 := \<lparr>size_blk = 96, free_blk = 1, next_blk = 0\<rparr>)\<rparr>)"
    by (simp add: eval_defs heap_one_free_def)
  from step1 a 1 2 3 show ?thesis
    by (simp add: heap_one_alloc_def mem0_def)
qed

end
